theory Spec2Isabelle
  imports
    Main
    "HOL-Library.Word"
    "HOL-Library.Finite_Map"
    "HOL-Library.Char_ord"
    "HOL-Library.List_Lexorder"
begin

unbundle bit_operations_syntax

section \<open>Data model of \<^verbatim>\<open>source/common/stats/symbol_table_impl.{h,cc}\<close>\<close>

text \<open>
  \<^verbatim>\<open>using Symbol = uint32_t;\<close>, \<^verbatim>\<open>using SymbolStorage = uint8_t[];\<close>,
  \<^verbatim>\<open>using SymbolVec = std::vector<Symbol>;\<close>.  A \<^verbatim>\<open>StatName\<close> is a pointer
  \<^verbatim>\<open>size_and_data_\<close> into a byte array; it is modelled by the bytes found at that
  address.  Sizes (\<^verbatim>\<open>uint64_t\<close> counts of bytes held in memory) are natural numbers.
  Every operation that reads or writes the table does so under \<^verbatim>\<open>lock_\<close>, so the
  operations are modelled one after the other, each taking the table and returning it.
\<close>

type_synonym Symbol = "32 word"
type_synonym byte = "8 word"
type_synonym SymbolVec = "Symbol list"
type_synonym StatName = "byte list"

text \<open>
  Every way in which an operation does not return normally.

  Modelled from the spec: the macros \<^verbatim>\<open>ASSERT\<close> and \<^verbatim>\<open>RELEASE_ASSERT\<close> of
  \<^verbatim>\<open>common/common/assert.h\<close>, which is not among the sources.  Section 7 of the
  specification: invariant violations are fatal and terminate the process.  A failed
  \<^verbatim>\<open>ASSERT\<close> is \<open>AssertFailure\<close>, a failed \<^verbatim>\<open>RELEASE_ASSERT\<close> is \<open>ReleaseAssertFailure\<close>.

  \<open>ShiftOutOfRange\<close> is a left shift of a 32-bit value by 32 or more, \<open>OutOfBounds\<close> a
  read past the end of the byte array: C++ leaves both undefined, the model makes them
  outcomes of their own.
\<close>

datatype fault = AssertFailure | ReleaseAssertFailure | ShiftOutOfRange | OutOfBounds

definition SpilloverMask :: "32 word" where
  "SpilloverMask = 0x80"

definition Low7Bits :: "32 word" where
  "Low7Bits = 0x7f"

definition StatNameSizeEncodingBytes :: nat where
  "StatNameSizeEncodingBytes = 2"

definition StatNameMaxSize :: nat where
  "StatNameMaxSize = 2 ^ (8 * StatNameSizeEncodingBytes)"

section \<open>The token codec: \<^verbatim>\<open>SymbolEncoding\<close>\<close>

text \<open>
  \<^verbatim>\<open>SymbolEncoding::addSymbol\<close>: the do-while loop appending to \<^verbatim>\<open>vec_\<close>.  The
  argument \<open>vec\<close> is \<^verbatim>\<open>vec_\<close> before the call, the result \<^verbatim>\<open>vec_\<close> after it;
  \<^verbatim>\<open>push_back\<close> narrows the 32-bit value to a byte.
\<close>

function addSymbol :: "Symbol \<Rightarrow> byte list \<Rightarrow> byte list" where
  "addSymbol symbol vec =
     (let vec' = (if symbol < push_bit 7 1
                  then vec @ [ucast symbol]
                  else vec @ [ucast ((symbol AND Low7Bits) OR SpilloverMask)]);
          symbol' = drop_bit 7 symbol
      in if symbol' \<noteq> 0 then addSymbol symbol' vec' else vec')"
  by pat_completeness auto
termination
proof (relation "measure (\<lambda>(symbol, vec). unat symbol)")
  show "wf (measure (\<lambda>(symbol :: Symbol, vec :: byte list). unat symbol))"
    by simp
next
  fix symbol :: Symbol and vec x :: "byte list" and xa :: Symbol
  assume xa: "xa = drop_bit 7 symbol" and nz: "xa \<noteq> 0"
  have "unat (drop_bit 7 symbol) = unat symbol div 2 ^ 7"
    unfolding unat_drop_bit_eq by (simp add: drop_bit_eq_div)
  moreover have "unat symbol \<noteq> 0"
    using xa nz by (auto simp: unat_eq_0)
  ultimately have "unat (drop_bit 7 symbol) < unat symbol"
    by simp
  then show "((xa, x), (symbol, vec)) \<in> measure (\<lambda>(symbol, vec). unat symbol)"
    using xa by simp
qed

declare addSymbol.simps [simp del]

text \<open>The loop of \<^verbatim>\<open>SymbolTable::encode\<close> that adds every symbol in turn.\<close>

fun addSymbols :: "SymbolVec \<Rightarrow> byte list \<Rightarrow> byte list" where
  "addSymbols [] vec = vec"
| "addSymbols (symbol # symbols) vec = addSymbols symbols (addSymbol symbol vec)"

text \<open>
  The loop of \<^verbatim>\<open>SymbolEncoding::decodeSymbols\<close> over the bytes still to read, with
  the locals \<^verbatim>\<open>symbol\<close>, \<^verbatim>\<open>shift\<close> and \<^verbatim>\<open>symbol_vec\<close>.  \<^verbatim>\<open>shift\<close> never exceeds 35 in
  the model (at 32 or more the shift is undefined and the model stops), so it is a
  natural number.
\<close>

fun decodeLoop :: "byte list \<Rightarrow> Symbol \<Rightarrow> nat \<Rightarrow> SymbolVec \<Rightarrow> fault + SymbolVec" where
  "decodeLoop [] symbol shift symbol_vec = Inr symbol_vec"
| "decodeLoop (b # array) symbol shift symbol_vec =
     (let uc = (ucast b :: 32 word) in
      if 32 \<le> shift then Inl ShiftOutOfRange
      else
        let symbol' = symbol OR push_bit shift (uc AND Low7Bits) in
        if uc AND SpilloverMask = 0
        then decodeLoop array 0 0 (symbol_vec @ [symbol'])
        else decodeLoop array symbol' (shift + 7) symbol_vec)"

definition decodeSymbols :: "byte list \<Rightarrow> nat \<Rightarrow> fault + SymbolVec" where
  "decodeSymbols array sz =
     (if length array < sz then Inl OutOfBounds
      else decodeLoop (take sz array) 0 0 [])"

text \<open>
  \<^verbatim>\<open>saveLengthToBytesReturningNext\<close> writes the two length bytes (each assignment
  narrows the 64-bit value to a byte); the result is the two bytes written.
\<close>

definition saveLengthToBytesReturningNext :: "nat \<Rightarrow> fault + byte list" where
  "saveLengthToBytesReturningNext len =
     (if \<not> len < StatNameMaxSize then Inl AssertFailure
      else Inr [ucast ((word_of_nat len :: 64 word) AND 0xff),
                ucast (drop_bit 8 (word_of_nat len :: 64 word))])"

text \<open>
  \<^verbatim>\<open>SymbolEncoding::moveToStorage\<close>: the contents of the array of
  \<^verbatim>\<open>bytesRequired()\<close> bytes after the call.
\<close>

definition moveToStorage :: "byte list \<Rightarrow> fault + byte list" where
  "moveToStorage vec =
     (case saveLengthToBytesReturningNext (length vec) of
        Inl e \<Rightarrow> Inl e
      | Inr hdr \<Rightarrow> Inr (hdr @ vec))"

section \<open>\<^verbatim>\<open>StatName\<close>: a view of length-prefixed bytes\<close>

text \<open>\<^verbatim>\<open>StatName::dataSize\<close> reads the first two bytes.\<close>

definition dataSize :: "StatName \<Rightarrow> fault + nat" where
  "dataSize size_and_data =
     (if length size_and_data < 2 then Inl OutOfBounds
      else Inr (unat ((ucast (size_and_data ! 0) :: 64 word)
                      OR push_bit 8 (ucast (size_and_data ! 1) :: 64 word))))"

text \<open>\<^verbatim>\<open>StatName::data\<close>: the bytes from \<^verbatim>\<open>size_and_data_ + 2\<close> on.\<close>

definition data :: "StatName \<Rightarrow> byte list" where
  "data size_and_data = drop StatNameSizeEncodingBytes size_and_data"

text \<open>
  \<^verbatim>\<open>StatName::operator==\<close>: the sizes are compared first, and \<^verbatim>\<open>memcmp\<close> reads
  \<^verbatim>\<open>sz\<close> bytes of both only when they agree.
\<close>

definition StatName_eq :: "StatName \<Rightarrow> StatName \<Rightarrow> fault + bool" where
  "StatName_eq lhs rhs =
     (case dataSize lhs of
        Inl e \<Rightarrow> Inl e
      | Inr sz \<Rightarrow>
          (case dataSize rhs of
             Inl e \<Rightarrow> Inl e
           | Inr rsz \<Rightarrow>
               if sz \<noteq> rsz then Inr False
               else if length (data lhs) < sz \<or> length (data rhs) < sz then Inl OutOfBounds
               else Inr (take sz (data lhs) = take sz (data rhs))))"

section \<open>Strings\<close>

text \<open>
  \<^verbatim>\<open>absl::StrSplit(name, '.')\<close> and \<^verbatim>\<open>absl::StrJoin(tokens, ".")\<close> are library calls:
  splitting keeps empty pieces and yields one piece more than there are delimiters;
  joining puts the separator between consecutive pieces.  \<open>cur\<close> is the piece being
  read.
\<close>

fun StrSplitFrom :: "string \<Rightarrow> char \<Rightarrow> string \<Rightarrow> string list" where
  "StrSplitFrom [] d cur = [cur]"
| "StrSplitFrom (c # cs) d cur =
     (if c = d then cur # StrSplitFrom cs d [] else StrSplitFrom cs d (cur @ [c]))"

definition StrSplit :: "string \<Rightarrow> char \<Rightarrow> string list" where
  "StrSplit name d = StrSplitFrom name d []"

fun StrJoin :: "string list \<Rightarrow> string \<Rightarrow> string" where
  "StrJoin [] sep = []"
| "StrJoin [t] sep = t"
| "StrJoin (t # u # ts) sep = t @ sep @ StrJoin (u # ts) sep"

section \<open>The symbol table\<close>

text \<open>
  \<^verbatim>\<open>struct SharedSymbol { Symbol symbol_; uint32_t ref_count_; }\<close> and the members of
  \<^verbatim>\<open>class SymbolTable\<close> (the names lose their trailing underscore).  The two
  \<^verbatim>\<open>flat_hash_map\<close>s are finite maps; \<^verbatim>\<open>pool_\<close> is a stack whose top is the head of
  the list.
\<close>

record SharedSymbol =
  symbol :: Symbol
  ref_count :: "32 word"

record SymbolTable =
  next_symbol :: Symbol
  monotonic_counter :: Symbol
  encode_map :: "(string, SharedSymbol) fmap"
  decode_map :: "(Symbol, string) fmap"
  pool :: "Symbol list"

text \<open>The constructor \<^verbatim>\<open>SymbolTable::SymbolTable()\<close>.\<close>

definition SymbolTable_init :: SymbolTable where
  "SymbolTable_init =
     \<lparr>next_symbol = 0, monotonic_counter = 0,
      encode_map = fmempty, decode_map = fmempty, pool = []\<rparr>"

text \<open>\<^verbatim>\<open>SymbolTable::newSymbol\<close>.\<close>

definition newSymbol :: "SymbolTable \<Rightarrow> fault + SymbolTable" where
  "newSymbol T =
     (let T' = (case pool T of
                  [] \<Rightarrow> T\<lparr>monotonic_counter := monotonic_counter T + 1,
                           next_symbol := monotonic_counter T + 1\<rparr>
                | top_symbol # rest \<Rightarrow> T\<lparr>next_symbol := top_symbol, pool := rest\<rparr>)
      in if monotonic_counter T' = 0 then Inl AssertFailure else Inr T')"

text \<open>
  \<^verbatim>\<open>SymbolTable::toSymbol\<close>.  \<^verbatim>\<open>flat_hash_map::insert\<close> leaves the map alone and
  reports \<^verbatim>\<open>false\<close> when the key is present; each of the two results is asserted.
\<close>

definition toSymbol :: "SymbolTable \<Rightarrow> string \<Rightarrow> fault + (SymbolTable \<times> Symbol)" where
  "toSymbol T sv =
     (case fmlookup (encode_map T) sv of
        None \<Rightarrow>
          if next_symbol T |\<in>| fmdom (decode_map T) then Inl AssertFailure
          else
            (case newSymbol
                    (T\<lparr>encode_map :=
                         fmupd sv \<lparr>symbol = next_symbol T, ref_count = 1\<rparr> (encode_map T),
                       decode_map := fmupd (next_symbol T) sv (decode_map T)\<rparr>) of
               Inl e \<Rightarrow> Inl e
             | Inr T' \<Rightarrow> Inr (T', next_symbol T))
      | Some shared \<Rightarrow>
          Inr (T\<lparr>encode_map :=
                   fmupd sv (shared\<lparr>ref_count := ref_count shared + 1\<rparr>) (encode_map T)\<rparr>,
               symbol shared))"

text \<open>The loop of \<^verbatim>\<open>encode\<close> over the tokens, under the lock.\<close>

fun toSymbols :: "SymbolTable \<Rightarrow> string list \<Rightarrow> fault + (SymbolTable \<times> SymbolVec)" where
  "toSymbols T [] = Inr (T, [])"
| "toSymbols T (token # tokens) =
     (case toSymbol T token of
        Inl e \<Rightarrow> Inl e
      | Inr (T', s) \<Rightarrow>
          (case toSymbols T' tokens of
             Inl e \<Rightarrow> Inl e
           | Inr (T'', symbols) \<Rightarrow> Inr (T'', s # symbols)))"

text \<open>
  \<^verbatim>\<open>SymbolTable::encode\<close>: the table after the call and the \<^verbatim>\<open>vec_\<close> of the
  \<^verbatim>\<open>SymbolEncoding\<close> returned.
\<close>

definition encode :: "SymbolTable \<Rightarrow> string \<Rightarrow> fault + (SymbolTable \<times> byte list)" where
  "encode T name =
     (if name = [] then Inr (T, [])
      else
        (case toSymbols T (StrSplit name CHR ''.'') of
           Inl e \<Rightarrow> Inl e
         | Inr (T', symbols) \<Rightarrow> Inr (T', addSymbols symbols [])))"

text \<open>\<^verbatim>\<open>SymbolTable::fromSymbol\<close>.\<close>

definition fromSymbol :: "SymbolTable \<Rightarrow> Symbol \<Rightarrow> fault + string" where
  "fromSymbol T s =
     (case fmlookup (decode_map T) s of
        None \<Rightarrow> Inl ReleaseAssertFailure
      | Some str \<Rightarrow> Inr str)"

fun fromSymbols :: "SymbolTable \<Rightarrow> SymbolVec \<Rightarrow> fault + string list" where
  "fromSymbols T [] = Inr []"
| "fromSymbols T (s # symbols) =
     (case fromSymbol T s of
        Inl e \<Rightarrow> Inl e
      | Inr str \<Rightarrow>
          (case fromSymbols T symbols of
             Inl e \<Rightarrow> Inl e
           | Inr name_tokens \<Rightarrow> Inr (str # name_tokens)))"

text \<open>\<^verbatim>\<open>SymbolTable::decodeSymbolVec\<close> and \<^verbatim>\<open>SymbolTable::decode\<close>.\<close>

definition decodeSymbolVec :: "SymbolTable \<Rightarrow> SymbolVec \<Rightarrow> fault + string" where
  "decodeSymbolVec T symbols =
     (case fromSymbols T symbols of
        Inl e \<Rightarrow> Inl e
      | Inr name_tokens \<Rightarrow> Inr (StrJoin name_tokens ''.''))"

definition decode :: "SymbolTable \<Rightarrow> byte list \<Rightarrow> nat \<Rightarrow> fault + string" where
  "decode T symbol_array sz =
     (case decodeSymbols symbol_array sz of
        Inl e \<Rightarrow> Inl e
      | Inr symbols \<Rightarrow> decodeSymbolVec T symbols)"

text \<open>\<^verbatim>\<open>StatName::toString\<close>.\<close>

definition toString :: "StatName \<Rightarrow> SymbolTable \<Rightarrow> fault + string" where
  "toString stat_name T =
     (case dataSize stat_name of
        Inl e \<Rightarrow> Inl e
      | Inr sz \<Rightarrow> decode T (data stat_name) sz)"

text \<open>The loop of \<^verbatim>\<open>SymbolTable::incRefCount\<close> and the function itself.\<close>

fun incRefCountLoop :: "SymbolTable \<Rightarrow> SymbolVec \<Rightarrow> fault + SymbolTable" where
  "incRefCountLoop T [] = Inr T"
| "incRefCountLoop T (s # symbols) =
     (case fmlookup (decode_map T) s of
        None \<Rightarrow> Inl AssertFailure
      | Some str \<Rightarrow>
          (case fmlookup (encode_map T) str of
             None \<Rightarrow> Inl AssertFailure
           | Some shared \<Rightarrow>
               incRefCountLoop
                 (T\<lparr>encode_map :=
                      fmupd str (shared\<lparr>ref_count := ref_count shared + 1\<rparr>) (encode_map T)\<rparr>)
                 symbols))"

definition incRefCount :: "SymbolTable \<Rightarrow> StatName \<Rightarrow> fault + SymbolTable" where
  "incRefCount T stat_name =
     (case dataSize stat_name of
        Inl e \<Rightarrow> Inl e
      | Inr sz \<Rightarrow>
          (case decodeSymbols (data stat_name) sz of
             Inl e \<Rightarrow> Inl e
           | Inr symbols \<Rightarrow> incRefCountLoop T symbols))"

text \<open>The loop of \<^verbatim>\<open>SymbolTable::free\<close> and the function itself.\<close>

fun freeLoop :: "SymbolTable \<Rightarrow> SymbolVec \<Rightarrow> fault + SymbolTable" where
  "freeLoop T [] = Inr T"
| "freeLoop T (s # symbols) =
     (case fmlookup (decode_map T) s of
        None \<Rightarrow> Inl AssertFailure
      | Some str \<Rightarrow>
          (case fmlookup (encode_map T) str of
             None \<Rightarrow> Inl AssertFailure
           | Some shared \<Rightarrow>
               if ref_count shared - 1 = 0
               then freeLoop
                      (T\<lparr>decode_map := fmdrop s (decode_map T),
                         encode_map := fmdrop str (encode_map T),
                         pool := s # pool T\<rparr>)
                      symbols
               else freeLoop
                      (T\<lparr>encode_map :=
                           fmupd str (shared\<lparr>ref_count := ref_count shared - 1\<rparr>)
                             (encode_map T)\<rparr>)
                      symbols))"

definition free :: "SymbolTable \<Rightarrow> StatName \<Rightarrow> fault + SymbolTable" where
  "free T stat_name =
     (case dataSize stat_name of
        Inl e \<Rightarrow> Inl e
      | Inr sz \<Rightarrow>
          (case decodeSymbols (data stat_name) sz of
             Inl e \<Rightarrow> Inl e
           | Inr symbols \<Rightarrow> freeLoop T symbols))"

text \<open>\<^verbatim>\<open>SymbolTable::numSymbols\<close>, with its assertion that the two sizes agree.\<close>

definition numSymbols :: "SymbolTable \<Rightarrow> fault + nat" where
  "numSymbols T =
     (if fcard (fmdom (encode_map T)) \<noteq> fcard (fmdom (decode_map T)) then Inl AssertFailure
      else Inr (fcard (fmdom (encode_map T))))"

text \<open>
  \<^verbatim>\<open>SymbolTable::lessThan\<close>: the loop with its index \<open>i\<close> and bound \<open>n\<close>, and the
  function.  \<^verbatim>\<open>absl::string_view\<close> is compared lexicographically by unsigned bytes,
  which is the order of \<open>string\<close> here.
\<close>

function lessThanLoop ::
  "SymbolTable \<Rightarrow> SymbolVec \<Rightarrow> SymbolVec \<Rightarrow> nat \<Rightarrow> nat \<Rightarrow> fault + bool" where
  "lessThanLoop T av bv i n =
     (if i < n then
        (if av ! i \<noteq> bv ! i then
           (case fromSymbol T (av ! i) of
              Inl e \<Rightarrow> Inl e
            | Inr sa \<Rightarrow>
                (case fromSymbol T (bv ! i) of
                   Inl e \<Rightarrow> Inl e
                 | Inr sb \<Rightarrow> Inr (sa < sb)))
         else lessThanLoop T av bv (i + 1) n)
      else Inr (length av < length bv))"
  by pat_completeness auto
termination
  by (relation "measure (\<lambda>(T, av, bv, i, n). n - i)") auto

declare lessThanLoop.simps [simp del]

definition lessThan :: "SymbolTable \<Rightarrow> StatName \<Rightarrow> StatName \<Rightarrow> fault + bool" where
  "lessThan T a b =
     (case dataSize a of
        Inl e \<Rightarrow> Inl e
      | Inr asz \<Rightarrow>
          (case decodeSymbols (data a) asz of
             Inl e \<Rightarrow> Inl e
           | Inr av \<Rightarrow>
               (case dataSize b of
                  Inl e \<Rightarrow> Inl e
                | Inr bsz \<Rightarrow>
                    (case decodeSymbols (data b) bsz of
                       Inl e \<Rightarrow> Inl e
                     | Inr bv \<Rightarrow> lessThanLoop T av bv 0 (min (length av) (length bv))))))"

section \<open>Storage and joining\<close>

text \<open>
  \<^verbatim>\<open>StatNameStorage::StatNameStorage(absl::string_view, SymbolTable&)\<close>: the table
  after the call and the bytes \<^verbatim>\<open>bytes_\<close> of the new object.
\<close>

definition StatNameStorage :: "string \<Rightarrow> SymbolTable \<Rightarrow> fault + (SymbolTable \<times> StatName)" where
  "StatNameStorage name T =
     (case encode T name of
        Inl e \<Rightarrow> Inl e
      | Inr (T', encoding) \<Rightarrow>
          (case moveToStorage encoding of
             Inl e \<Rightarrow> Inl e
           | Inr bytes \<Rightarrow> Inr (T', bytes)))"

text \<open>
  \<^verbatim>\<open>StatNameJoiner::StatNameJoiner(StatName a, StatName b)\<close>: the bytes \<^verbatim>\<open>bytes_\<close>
  of the joiner; \<^verbatim>\<open>alloc\<close> writes the length, the two \<^verbatim>\<open>memcpy\<close> calls the payloads.
  The constructor is given no table.
\<close>

definition StatNameJoiner :: "StatName \<Rightarrow> StatName \<Rightarrow> fault + StatName" where
  "StatNameJoiner a b =
     (case dataSize a of
        Inl e \<Rightarrow> Inl e
      | Inr a_size \<Rightarrow>
          (case dataSize b of
             Inl e \<Rightarrow> Inl e
           | Inr b_size \<Rightarrow>
               (case saveLengthToBytesReturningNext (a_size + b_size) of
                  Inl e \<Rightarrow> Inl e
                | Inr hdr \<Rightarrow>
                    if length (data a) < a_size \<or> length (data b) < b_size
                    then Inl OutOfBounds
                    else Inr (hdr @ take a_size (data a) @ take b_size (data b)))))"

section \<open>Runs of table operations\<close>

text \<open>
  A table state is reachable when a sequence of the public mutating operations, each
  returning normally, leads to it from the constructor's state.
\<close>

datatype table_op = Encode string | Free StatName | IncRefCount StatName

fun apply_op :: "SymbolTable \<Rightarrow> table_op \<Rightarrow> fault + SymbolTable" where
  "apply_op T (Encode name) =
     (case encode T name of Inl e \<Rightarrow> Inl e | Inr (T', encoding) \<Rightarrow> Inr T')"
| "apply_op T (Free stat_name) = free T stat_name"
| "apply_op T (IncRefCount stat_name) = incRefCount T stat_name"

fun run_ops :: "SymbolTable \<Rightarrow> table_op list \<Rightarrow> fault + SymbolTable" where
  "run_ops T [] = Inr T"
| "run_ops T (operation # ops) =
     (case apply_op T operation of Inl e \<Rightarrow> Inl e | Inr T' \<Rightarrow> run_ops T' ops)"

section \<open>Reference definitions that follow the specification\<close>

text \<open>
  The codec as the specification words it (section 3): "while \<open>s >= 128\<close>, emit
  \<open>(s & 0x7F) | 0x80\<close> then set \<open>s = s >> 7\<close>; finally emit \<open>s\<close>".  It is compared with
  \<open>addSymbol\<close>, which is the code.
\<close>

function encode_token_spec :: "Symbol \<Rightarrow> byte list" where
  "encode_token_spec s =
     (if 128 \<le> s then ucast ((s AND 0x7F) OR 0x80) # encode_token_spec (drop_bit 7 s)
      else [ucast s])"
  by pat_completeness auto
termination
proof (relation "measure unat")
  show "wf (measure (unat :: Symbol \<Rightarrow> nat))"
    by simp
next
  fix s :: Symbol
  assume "128 \<le> s"
  then have "128 \<le> unat s"
    by (simp add: word_le_nat_alt)
  moreover have "unat (drop_bit 7 s) = unat s div 2 ^ 7"
    unfolding unat_drop_bit_eq by (simp add: drop_bit_eq_div)
  ultimately have "unat (drop_bit 7 s) < unat s"
    by simp
  then show "(drop_bit 7 s, s) \<in> measure unat"
    by simp
qed

declare encode_token_spec.simps [simp del]

section \<open>Invariants of the table\<close>

text \<open>
  \<open>bimap\<close>: the two maps are inverse to each other.  \<open>pool_ok\<close>: the free list has no
  duplicates and no id of the decode map, and no id in use or in the free list exceeds
  \<open>monotonic_counter\<close>.  \<open>staged\<close>: moreover \<open>next_symbol\<close> is such an unused id, outside
  the free list.
\<close>

definition bimap :: "SymbolTable \<Rightarrow> bool" where
  "bimap T \<longleftrightarrow>
     (\<forall>s shared. fmlookup (encode_map T) s = Some shared \<longrightarrow>
        fmlookup (decode_map T) (symbol shared) = Some s) \<and>
     (\<forall>i s. fmlookup (decode_map T) i = Some s \<longrightarrow>
        (\<exists>shared. fmlookup (encode_map T) s = Some shared \<and> symbol shared = i))"

definition pool_ok :: "SymbolTable \<Rightarrow> bool" where
  "pool_ok T \<longleftrightarrow>
     distinct (pool T) \<and>
     (\<forall>i \<in> set (pool T). fmlookup (decode_map T) i = None \<and> i \<le> monotonic_counter T) \<and>
     (\<forall>i s. fmlookup (decode_map T) i = Some s \<longrightarrow> i \<le> monotonic_counter T)"

definition staged :: "SymbolTable \<Rightarrow> bool" where
  "staged T \<longleftrightarrow>
     pool_ok T \<and>
     fmlookup (decode_map T) (next_symbol T) = None \<and>
     next_symbol T \<notin> set (pool T) \<and>
     next_symbol T \<le> monotonic_counter T"

definition table_inv :: "SymbolTable \<Rightarrow> bool" where
  "table_inv T \<longleftrightarrow> bimap T \<and> staged T"

text \<open>
  The tokens that \<open>encode\<close> interns for a name: none for the empty name (its early
  return), the pieces between the dots otherwise.
\<close>

definition name_tokens :: "string \<Rightarrow> string list" where
  "name_tokens name = (if name = [] then [] else StrSplit name CHR ''.'')"

text \<open>The reference count that the table holds for a token, 0 when it holds none.\<close>

definition ref_count_of :: "SymbolTable \<Rightarrow> string \<Rightarrow> 32 word" where
  "ref_count_of T t = (case fmlookup (encode_map T) t of None \<Rightarrow> 0 | Some shared \<Rightarrow> ref_count shared)"



section \<open>Bits of a symbol\<close>

lemma gen_low_byte:
  "n < 8 \<Longrightarrow>
   (ucast (ucast ((x AND mask n) OR 2 ^ n :: 32 word) :: byte) :: 32 word) = (x AND mask n) OR 2 ^ n"
  by (rule bit_word_eqI) (auto simp: bit_simps)

lemma gen_and_low: "((x AND mask n) OR 2 ^ n) AND (mask n :: 32 word) = x AND mask n"
  by (rule bit_word_eqI) (auto simp: bit_simps)

lemma gen_and_spill: "n < 32 \<Longrightarrow> ((x AND mask n) OR 2 ^ n) AND (2 ^ n :: 32 word) = 2 ^ n"
  by (rule bit_word_eqI) (auto simp: bit_simps)

lemma gen_small_spill:
  assumes "(x :: 32 word) < 2 ^ n"
  shows "x AND 2 ^ n = 0"
proof -
  have "x AND mask n = x"
    using assms by (rule less_mask_eq)
  then have "x AND 2 ^ n = (x AND mask n) AND 2 ^ n"
    by simp
  also have "\<dots> = 0"
    by (rule bit_word_eqI) (auto simp: bit_simps)
  finally show ?thesis .
qed

lemma gen_acc_step:
  "take_bit sh (s :: 32 word) OR push_bit sh (drop_bit sh s AND mask n) = take_bit (sh + n) s"
  by (rule bit_word_eqI) (auto simp: bit_simps)

lemma gen_acc_final:
  assumes "drop_bit sh (s :: 32 word) < 2 ^ n"
  shows "take_bit sh s OR push_bit sh (drop_bit sh s AND mask n) = s"
proof -
  have "drop_bit sh s AND mask n = drop_bit sh s"
    using assms by (rule less_mask_eq)
  moreover have "take_bit sh s OR push_bit sh (drop_bit sh s) = s"
  proof (rule bit_word_eqI)
    fix k
    assume "k < LENGTH(32)"
    then show "bit (take_bit sh s OR push_bit sh (drop_bit sh s)) k = bit s k"
      by (cases "sh \<le> k") (auto simp: bit_simps)
  qed
  ultimately show ?thesis
    by simp
qed

lemma gen_ucast_small:
  assumes "(x :: 32 word) < 2 ^ n" and "n \<le> 8"
  shows "(ucast (ucast x :: byte) :: 32 word) = x"
proof -
  have e: "x AND mask n = x"
    using assms(1) by (rule less_mask_eq)
  have "(ucast (ucast (x AND mask n) :: byte) :: 32 word) = x AND mask n"
    using assms(2) by (intro bit_word_eqI) (auto simp: bit_simps)
  then show ?thesis
    by (simp add: e)
qed

lemma drop_nz_lt: "drop_bit sh (s :: 32 word) \<noteq> 0 \<Longrightarrow> sh < 32"
  by (rule ccontr) (simp add: not_less)

lemma low_byte:
  "(ucast (ucast ((x AND 0x7F) OR 0x80 :: 32 word) :: byte) :: 32 word) = (x AND 0x7F) OR 0x80"
  using gen_low_byte [of 7 x] by (simp add: mask_eq_exp_minus_1)

lemma and_low: "((x AND 0x7F) OR 0x80) AND (0x7F :: 32 word) = x AND 0x7F"
  using gen_and_low [of x 7] by (simp add: mask_eq_exp_minus_1)

lemma and_spill: "((x AND 0x7F) OR 0x80) AND (0x80 :: 32 word) = 0x80"
  using gen_and_spill [of 7 x] by (simp add: mask_eq_exp_minus_1)

lemma small_spill: "(x :: 32 word) < 128 \<Longrightarrow> x AND 0x80 = 0"
  using gen_small_spill [of x 7] by simp

lemma acc_step:
  "take_bit sh (s :: 32 word) OR push_bit sh (drop_bit sh s AND 0x7F) = take_bit (sh + 7) s"
  using gen_acc_step [of sh s 7] by (simp add: mask_eq_exp_minus_1)

lemma acc_final:
  "drop_bit sh (s :: 32 word) < 128 \<Longrightarrow>
   take_bit sh s OR push_bit sh (drop_bit sh s AND 0x7F) = s"
  using gen_acc_final [of sh s 7] by (simp add: mask_eq_exp_minus_1)

lemma ucast_small: "(x :: 32 word) < 128 \<Longrightarrow> (ucast (ucast x :: byte) :: 32 word) = x"
  using gen_ucast_small [of x 7] by simp

lemma drop7_zero_iff: "drop_bit 7 (s :: Symbol) = 0 \<longleftrightarrow> s < 128"
proof -
  have "unat (drop_bit 7 s) = unat s div 2 ^ 7"
    unfolding unat_drop_bit_eq by (simp add: drop_bit_eq_div)
  then have "unat (drop_bit 7 s) = 0 \<longleftrightarrow> unat s < 128"
    by (simp add: div_eq_0_iff)
  then show ?thesis
    by (simp add: unat_eq_0 word_less_nat_alt)
qed

section \<open>The codec\<close>

lemma addSymbol_spec: "addSymbol s vec = vec @ encode_token_spec s"
proof (induction s vec rule: addSymbol.induct)
  case (1 symbol vec)
  show ?case
  proof (cases "symbol < 128")
    case True
    then have z: "drop_bit 7 symbol = 0"
      by (simp add: drop7_zero_iff)
    from True have nle: "\<not> 128 \<le> symbol"
      by simp
    show ?thesis
      using True z nle
      by (simp add: addSymbol.simps [of symbol vec] encode_token_spec.simps [of symbol])
  next
    case False
    then have nz: "drop_bit 7 symbol \<noteq> 0"
      by (simp add: drop7_zero_iff)
    from False have le: "128 \<le> symbol"
      by simp
    have ih: "addSymbol (drop_bit 7 symbol) (vec @ [ucast ((symbol AND Low7Bits) OR SpilloverMask)])
          = (vec @ [ucast ((symbol AND Low7Bits) OR SpilloverMask)])
            @ encode_token_spec (drop_bit 7 symbol)"
      using "1.IH" [OF refl refl nz] False by simp
    show ?thesis
      using False nz le ih
      by (simp add: addSymbol.simps [of symbol vec] encode_token_spec.simps [of symbol]
          Low7Bits_def SpilloverMask_def)
  qed
qed

lemma addSymbols_spec: "addSymbols syms vec = vec @ concat (map encode_token_spec syms)"
  by (induction syms arbitrary: vec) (simp_all add: addSymbol_spec)

lemma decode_token:
  "x = drop_bit sh s \<Longrightarrow> sh = 0 \<or> x \<noteq> 0 \<Longrightarrow>
   decodeLoop (encode_token_spec x @ rest) (take_bit sh s) sh vec = decodeLoop rest 0 0 (vec @ [s])"
proof (induction x arbitrary: sh rule: encode_token_spec.induct)
  case (1 x)
  have sh: "sh < 32"
    using "1.prems" by (auto dest: drop_nz_lt)
  show ?case
  proof (cases "128 \<le> x")
    case True
    then have nz: "drop_bit 7 x \<noteq> 0"
      by (simp add: drop7_zero_iff)
    have d: "drop_bit 7 x = drop_bit (sh + 7) s"
      using "1.prems"(1) by (simp add: add.commute)
    have ih: "decodeLoop (encode_token_spec (drop_bit 7 x) @ rest) (take_bit (sh + 7) s) (sh + 7) vec
          = decodeLoop rest 0 0 (vec @ [s])"
      using "1.IH" [OF True d] nz by simp
    have enc: "encode_token_spec x
          = ucast ((x AND 0x7F) OR 0x80) # encode_token_spec (drop_bit 7 x)"
      using True by (simp add: encode_token_spec.simps [of x])
    have step: "decodeLoop (ucast ((x AND 0x7F) OR 0x80) # (encode_token_spec (drop_bit 7 x) @ rest))
            (take_bit sh s) sh vec
          = decodeLoop (encode_token_spec (drop_bit 7 x) @ rest)
              (take_bit sh s OR push_bit sh (x AND 0x7F)) (sh + 7) vec"
      using sh by (simp add: Low7Bits_def SpilloverMask_def low_byte and_low and_spill
          del: push_bit_and push_bit_or)
    have acc: "take_bit sh s OR push_bit sh (x AND 0x7F) = take_bit (sh + 7) s"
      unfolding "1.prems"(1) by (rule acc_step)
    show ?thesis
      by (simp only: enc append_Cons step acc ih)
  next
    case False
    then have lt: "x < 128"
      by simp
    have enc: "encode_token_spec x = [ucast x]"
      using False by (simp add: encode_token_spec.simps [of x])
    have acc: "take_bit sh s OR push_bit sh (x AND 0x7F) = s"
      using acc_final [of sh s] lt "1.prems"(1) by simp
    have step: "decodeLoop (ucast x # rest) (take_bit sh s) sh vec
          = decodeLoop rest 0 0 (vec @ [take_bit sh s OR push_bit sh (x AND 0x7F)])"
      using sh lt by (simp add: Low7Bits_def SpilloverMask_def ucast_small small_spill
          del: push_bit_and push_bit_or)
    show ?thesis
      by (simp only: enc append_Cons append_Nil step acc)
  qed
qed

lemma decodeLoop_token:
  "decodeLoop (encode_token_spec s @ rest) 0 0 vec = decodeLoop rest 0 0 (vec @ [s])"
  using decode_token [of s 0 s rest vec] by simp

lemma decodeLoop_tokens:
  "decodeLoop (concat (map encode_token_spec syms) @ rest) 0 0 vec = decodeLoop rest 0 0 (vec @ syms)"
  by (induction syms arbitrary: vec) (simp_all add: decodeLoop_token)

lemma decodeSymbols_addSymbols:
  "decodeSymbols (addSymbols syms []) (length (addSymbols syms [])) = Inr syms"
  using decodeLoop_tokens [of syms "[]" "[]"] by (simp add: decodeSymbols_def addSymbols_spec)

lemma decodeLoop_trailing:
  "\<forall>b \<in> set tr. (ucast b :: 32 word) AND SpilloverMask \<noteq> 0 \<Longrightarrow> sh + 7 * length tr < 39 \<Longrightarrow>
   decodeLoop tr acc sh vec = Inr vec"
  by (induction tr arbitrary: acc sh) (auto simp: Let_def)

lemma gen_ucast_and: "n < 8 \<Longrightarrow> (ucast ((b :: byte) AND 2 ^ n) :: 32 word) = ucast b AND 2 ^ n"
  by (rule bit_word_eqI) (auto simp: bit_simps)

lemma ucast_byte_eq_0: "((ucast (b :: byte) :: 32 word) = 0) = (b = 0)"
proof
  assume z: "(ucast b :: 32 word) = 0"
  have "(ucast (ucast b :: 32 word) :: byte) = b"
    by (rule bit_word_eqI) (auto simp: bit_simps)
  then show "b = 0"
    by (simp add: z)
qed simp

lemma spill_byte: "((ucast (b :: byte) :: 32 word) AND 0x80 = 0) = (b AND 0x80 = 0)"
  using gen_ucast_and [of 7 b] ucast_byte_eq_0 [of "b AND 0x80"] by simp

lemma decodeLoop_no_assert:
  "decodeLoop array acc sh vec \<noteq> Inl AssertFailure \<and> decodeLoop array acc sh vec \<noteq> Inl ReleaseAssertFailure"
  by (induction array acc sh vec rule: decodeLoop.induct) (auto simp: Let_def)

lemma header_word:
  assumes "(w :: 64 word) < 2 ^ 16"
  shows "(ucast (ucast (w AND mask 8) :: byte) :: 64 word)
         OR push_bit 8 (ucast (ucast (drop_bit 8 w) :: byte)) = w"
proof -
  have e: "w AND mask 16 = w"
    using assms by (rule less_mask_eq)
  have "(ucast (ucast ((w AND mask 16) AND mask 8) :: byte) :: 64 word)
         OR push_bit 8 (ucast (ucast (drop_bit 8 (w AND mask 16)) :: byte)) = w AND mask 16"
  proof (rule bit_word_eqI)
    fix k
    assume "k < LENGTH(64)"
    then show "bit ((ucast (ucast ((w AND mask 16) AND mask 8) :: byte) :: 64 word)
         OR push_bit 8 (ucast (ucast (drop_bit 8 (w AND mask 16)) :: byte))) k = bit (w AND mask 16) k"
      by (cases "8 \<le> k") (auto simp: bit_simps)
  qed
  then show ?thesis
    by (simp only: e)
qed

lemma dataSize_header:
  assumes "n < 65536"
  shows "unat ((ucast (ucast ((word_of_nat n :: 64 word) AND 0xff) :: byte) :: 64 word)
         OR push_bit 8 (ucast (ucast (drop_bit 8 (word_of_nat n :: 64 word)) :: byte))) = n"
proof -
  have u: "unat (word_of_nat n :: 64 word) = n"
    using assms by (simp add: unat_of_nat)
  then have "(word_of_nat n :: 64 word) < 2 ^ 16"
    using assms by (simp add: word_less_nat_alt)
  from header_word [OF this] u show ?thesis
    by (simp add: mask_eq_exp_minus_1)
qed

lemma moveToStorage_returns:
  "length vec < StatNameMaxSize \<Longrightarrow>
   moveToStorage vec = Inr (ucast ((word_of_nat (length vec) :: 64 word) AND 0xff)
                             # ucast (drop_bit 8 (word_of_nat (length vec) :: 64 word)) # vec)"
  by (simp add: moveToStorage_def saveLengthToBytesReturningNext_def)

lemma moveToStorage_Inr:
  "moveToStorage vec = Inr bytes \<Longrightarrow>
   length vec < 65536 \<and>
   bytes = ucast ((word_of_nat (length vec) :: 64 word) AND 0xff)
             # ucast (drop_bit 8 (word_of_nat (length vec) :: 64 word)) # vec"
  by (auto simp: moveToStorage_def saveLengthToBytesReturningNext_def StatNameMaxSize_def
      StatNameSizeEncodingBytes_def split: if_splits)

lemma dataSize_moveToStorage:
  "moveToStorage vec = Inr bytes \<Longrightarrow> dataSize bytes = Inr (length vec) \<and> data bytes = vec"
  using dataSize_header [of "length vec"]
  by (auto dest!: moveToStorage_Inr simp: dataSize_def data_def StatNameSizeEncodingBytes_def)

lemma encode_token_spec_0: "encode_token_spec 0 = [0]"
  by (simp add: encode_token_spec.simps [of 0])

text \<open>
  Claim C2.  Whatever ids are added with \<open>addSymbol\<close>, the bytes that
  \<open>moveToStorage\<close> then produces are: byte 0 the payload length \<open>AND 0xFF\<close>, byte 1 the
  payload length shifted right by 8, then the payload, in which every id is written as
  the specification words it (\<open>encode_token_spec\<close>); id 0 is the single byte \<open>0x00\<close>;
  and \<open>dataSize\<close> reads the payload length back from the two prefix bytes.
  \<open>moveToStorage\<close> produces bytes whenever the payload is shorter than
  \<open>StatNameMaxSize\<close>, which its assertion demands.
\<close>

theorem packed_name_layout:
  "(\<forall>bytes. moveToStorage (addSymbols syms []) = Inr bytes \<longrightarrow>
      bytes ! 0
        = ucast ((word_of_nat (length (concat (map encode_token_spec syms))) :: 64 word) AND 0xFF)
      \<and> bytes ! 1
        = ucast (drop_bit 8 (word_of_nat (length (concat (map encode_token_spec syms))) :: 64 word))
      \<and> drop 2 bytes = concat (map encode_token_spec syms)
      \<and> dataSize bytes = Inr (length (concat (map encode_token_spec syms))))
   \<and> encode_token_spec 0 = [0x00]
   \<and> (length (concat (map encode_token_spec syms)) < StatNameMaxSize \<longrightarrow>
        (\<exists>bytes. moveToStorage (addSymbols syms []) = Inr bytes))"
proof -
  have a: "bytes ! 0
        = ucast ((word_of_nat (length (concat (map encode_token_spec syms))) :: 64 word) AND 0xFF)
      \<and> bytes ! 1
        = ucast (drop_bit 8 (word_of_nat (length (concat (map encode_token_spec syms))) :: 64 word))
      \<and> drop 2 bytes = concat (map encode_token_spec syms)
      \<and> dataSize bytes = Inr (length (concat (map encode_token_spec syms)))"
    if "moveToStorage (addSymbols syms []) = Inr bytes" for bytes
    using moveToStorage_Inr [OF that] dataSize_moveToStorage [OF that]
    by (simp add: addSymbols_spec)
  have b: "\<exists>bytes. moveToStorage (addSymbols syms []) = Inr bytes"
    if "length (concat (map encode_token_spec syms)) < StatNameMaxSize"
    using that moveToStorage_returns [of "addSymbols syms []"] by (simp add: addSymbols_spec)
  from a b encode_token_spec_0 show ?thesis
    by blast
qed

theorem packed_name_layout_witness:
  "moveToStorage (addSymbols [0, 1, 200] []) = Inr [4, 0, 0, 1, 200, 1]
   \<and> drop 2 [4, 0, 0, 1, 200, 1] = concat (map encode_token_spec [0, 1, 200])
   \<and> dataSize [4, 0, 0, 1, 200, 1] = Inr (length (concat (map encode_token_spec [0, 1, 200])))"
proof -
  have a: "addSymbols [0, 1, 200] [] = [0, 1, 200, 1]"
    by (simp add: addSymbol.simps Low7Bits_def SpilloverMask_def)
  have h: "moveToStorage (addSymbols [0, 1, 200] []) = Inr [4, 0, 0, 1, 200, 1]"
    unfolding a
    by (simp add: moveToStorage_def saveLengthToBytesReturningNext_def
        StatNameMaxSize_def StatNameSizeEncodingBytes_def)
  from packed_name_layout [of "[0, 1, 200]"] h show ?thesis
    by blast
qed

lemma decodeLoop_incomplete:
  "\<forall>b \<in> set tr. b AND 0x80 \<noteq> 0 \<Longrightarrow> sh + 7 * length tr < 39 \<Longrightarrow>
   decodeLoop tr acc sh vec = Inr vec"
  by (induction tr arbitrary: acc sh) (auto simp: Let_def SpilloverMask_def spill_byte)

text \<open>
  Claim C4, as amended.  \<open>decodeSymbols\<close> has no check for an incomplete final symbol
  and never fails an assertion.  When the bytes read end in up to five bytes that all
  have the continuation bit set, these bytes are dropped without notice and the ids
  completed before them are returned; with no such bytes the encoded ids are returned.
\<close>

theorem decodeSymbols_drops_incomplete_token:
  assumes "\<forall>b \<in> set tr. b AND 0x80 \<noteq> 0" and "length tr \<le> 5"
  shows "decodeSymbols (addSymbols syms [] @ tr @ extra) (length (addSymbols syms []) + length tr)
           = Inr syms
         \<and> decodeSymbols array n \<noteq> Inl AssertFailure
         \<and> decodeSymbols array n \<noteq> Inl ReleaseAssertFailure"
proof -
  have "decodeLoop tr 0 0 syms = Inr syms"
    using assms by (intro decodeLoop_incomplete) auto
  then have "decodeLoop (concat (map encode_token_spec syms) @ tr) 0 0 [] = Inr syms"
    using decodeLoop_tokens [of syms tr "[]"] by simp
  then have "decodeSymbols (addSymbols syms [] @ tr @ extra) (length (addSymbols syms []) + length tr)
           = Inr syms"
    by (simp add: decodeSymbols_def addSymbols_spec)
  then show ?thesis
    using decodeLoop_no_assert by (simp add: decodeSymbols_def)
qed

theorem decodeSymbols_drops_incomplete_token_witness:
  "decodeSymbols ([1, 200, 1] @ [0x80, 0xFF] @ [7]) 5 = Inr [1, 200]"
proof -
  have a: "addSymbols [1, 200] [] = [1, 200, 1]"
    by (simp add: addSymbol.simps Low7Bits_def SpilloverMask_def)
  have h1: "\<forall>b \<in> set [0x80, 0xFF :: byte]. b AND 0x80 \<noteq> 0"
    by simp
  have h2: "length [0x80, 0xFF :: byte] \<le> 5"
    by simp
  have "decodeSymbols (addSymbols [1, 200] [] @ [0x80, 0xFF] @ [7])
          (length (addSymbols [1, 200] []) + length [0x80, 0xFF :: byte]) = Inr [1, 200]"
    using decodeSymbols_drops_incomplete_token
            [OF h1 h2, where syms = "[1, 200]" and extra = "[7]" and array = "[]" and n = 0]
    by (rule conjunct1)
  then show ?thesis
    unfolding a by (simp add: eval_nat_numeral)
qed

text \<open>
  Claim C4 as stated fails: the one byte \<open>0x80\<close> has its continuation bit set, and
  decoding it returns the empty sequence of ids.
\<close>

theorem decodeSymbols_truncated_counterexample:
  "[0x80 :: byte] ! 0 AND 0x80 \<noteq> 0 \<and> decodeSymbols [0x80] 1 = Inr []"
  by (simp add: decodeSymbols_def Low7Bits_def SpilloverMask_def)

section \<open>The invariants are preserved\<close>

lemma word_succ_less: "(x :: 32 word) + 1 \<noteq> 0 \<Longrightarrow> x < x + 1"
  using inc_less_eq_iff by force

lemma word_le_succ: "(x :: 32 word) + 1 \<noteq> 0 \<Longrightarrow> i \<le> x \<Longrightarrow> i \<le> x + 1"
  using word_succ_less [of x] by simp

lemma bimap_cong:
  "encode_map T' = encode_map T \<Longrightarrow> decode_map T' = decode_map T \<Longrightarrow> bimap T' = bimap T"
  by (simp add: bimap_def)

lemma bimapD1:
  "bimap T \<Longrightarrow> fmlookup (encode_map T) s = Some shared \<Longrightarrow>
   fmlookup (decode_map T) (symbol shared) = Some s"
  unfolding bimap_def by blast

lemma bimapD2:
  "bimap T \<Longrightarrow> fmlookup (decode_map T) i = Some s \<Longrightarrow>
   \<exists>shared. fmlookup (encode_map T) s = Some shared \<and> symbol shared = i"
  unfolding bimap_def by blast

lemma bimapI:
  assumes "\<And>s shared. fmlookup (encode_map T) s = Some shared \<Longrightarrow>
             fmlookup (decode_map T) (symbol shared) = Some s"
    and "\<And>i s. fmlookup (decode_map T) i = Some s \<Longrightarrow>
             \<exists>shared. fmlookup (encode_map T) s = Some shared \<and> symbol shared = i"
  shows "bimap T"
  unfolding bimap_def using assms by blast

lemma bimap_insert:
  assumes b: "bimap T" and e: "fmlookup (encode_map T) sv = None"
    and d: "fmlookup (decode_map T) n = None"
  shows "bimap (T\<lparr>encode_map := fmupd sv \<lparr>symbol = n, ref_count = 1\<rparr> (encode_map T),
                  decode_map := fmupd n sv (decode_map T)\<rparr>)"
proof (rule bimapI)
  fix s shared
  assume a: "fmlookup (encode_map (T\<lparr>encode_map := fmupd sv \<lparr>symbol = n, ref_count = 1\<rparr> (encode_map T),
                  decode_map := fmupd n sv (decode_map T)\<rparr>)) s = Some shared"
  show "fmlookup (decode_map (T\<lparr>encode_map := fmupd sv \<lparr>symbol = n, ref_count = 1\<rparr> (encode_map T),
                  decode_map := fmupd n sv (decode_map T)\<rparr>)) (symbol shared) = Some s"
  proof (cases "sv = s")
    case True
    with a show ?thesis by auto
  next
    case False
    with a have "fmlookup (encode_map T) s = Some shared" by simp
    from bimapD1 [OF b this] d False show ?thesis by auto
  qed
next
  fix i s
  assume a: "fmlookup (decode_map (T\<lparr>encode_map := fmupd sv \<lparr>symbol = n, ref_count = 1\<rparr> (encode_map T),
                  decode_map := fmupd n sv (decode_map T)\<rparr>)) i = Some s"
  show "\<exists>shared. fmlookup (encode_map (T\<lparr>encode_map := fmupd sv \<lparr>symbol = n, ref_count = 1\<rparr> (encode_map T),
                  decode_map := fmupd n sv (decode_map T)\<rparr>)) s = Some shared \<and> symbol shared = i"
  proof (cases "n = i")
    case True
    with a show ?thesis by auto
  next
    case False
    with a have "fmlookup (decode_map T) i = Some s" by simp
    from bimapD2 [OF b this] e show ?thesis by auto
  qed
qed

lemma bimap_ref_count:
  assumes b: "bimap T" and e: "fmlookup (encode_map T) sv = Some shared"
  shows "bimap (T\<lparr>encode_map := fmupd sv (shared\<lparr>ref_count := r\<rparr>) (encode_map T)\<rparr>)"
proof (rule bimapI)
  fix s sh
  assume a: "fmlookup (encode_map (T\<lparr>encode_map := fmupd sv (shared\<lparr>ref_count := r\<rparr>) (encode_map T)\<rparr>)) s = Some sh"
  show "fmlookup (decode_map (T\<lparr>encode_map := fmupd sv (shared\<lparr>ref_count := r\<rparr>) (encode_map T)\<rparr>)) (symbol sh) = Some s"
  proof (cases "sv = s")
    case True
    with a bimapD1 [OF b e] show ?thesis by auto
  next
    case False
    with a have "fmlookup (encode_map T) s = Some sh" by simp
    from bimapD1 [OF b this] show ?thesis by simp
  qed
next
  fix i s
  assume "fmlookup (decode_map (T\<lparr>encode_map := fmupd sv (shared\<lparr>ref_count := r\<rparr>) (encode_map T)\<rparr>)) i = Some s"
  then have "fmlookup (decode_map T) i = Some s" by simp
  from bimapD2 [OF b this] obtain sh where sh: "fmlookup (encode_map T) s = Some sh" "symbol sh = i"
    by blast
  show "\<exists>sh. fmlookup (encode_map (T\<lparr>encode_map := fmupd sv (shared\<lparr>ref_count := r\<rparr>) (encode_map T)\<rparr>)) s = Some sh \<and> symbol sh = i"
    using sh e by (cases "sv = s") auto
qed

lemma bimap_erase:
  assumes b: "bimap T" and d: "fmlookup (decode_map T) s = Some str"
  shows "bimap (T\<lparr>decode_map := fmdrop s (decode_map T),
                  encode_map := fmdrop str (encode_map T), pool := p\<rparr>)"
proof (rule bimapI)
  fix t sh
  assume "fmlookup (encode_map (T\<lparr>decode_map := fmdrop s (decode_map T),
                  encode_map := fmdrop str (encode_map T), pool := p\<rparr>)) t = Some sh"
  then have ne: "str \<noteq> t" and e: "fmlookup (encode_map T) t = Some sh"
    by (auto split: if_splits)
  from bimapD1 [OF b e] have dt: "fmlookup (decode_map T) (symbol sh) = Some t" .
  with d ne have "s \<noteq> symbol sh" by auto
  with dt show "fmlookup (decode_map (T\<lparr>decode_map := fmdrop s (decode_map T),
                  encode_map := fmdrop str (encode_map T), pool := p\<rparr>)) (symbol sh) = Some t"
    by simp
next
  fix i t
  assume "fmlookup (decode_map (T\<lparr>decode_map := fmdrop s (decode_map T),
                  encode_map := fmdrop str (encode_map T), pool := p\<rparr>)) i = Some t"
  then have ne: "s \<noteq> i" and di: "fmlookup (decode_map T) i = Some t"
    by (auto split: if_splits)
  from bimapD2 [OF b di] obtain sh where sh: "fmlookup (encode_map T) t = Some sh" "symbol sh = i"
    by blast
  from bimapD2 [OF b d] obtain sh' where sh': "fmlookup (encode_map T) str = Some sh'" "symbol sh' = s"
    by blast
  from sh sh' ne have "str \<noteq> t" by auto
  with sh show "\<exists>sh. fmlookup (encode_map (T\<lparr>decode_map := fmdrop s (decode_map T),
                  encode_map := fmdrop str (encode_map T), pool := p\<rparr>)) t = Some sh \<and> symbol sh = i"
    by simp
qed

lemma pool_ok_insert:
  assumes "staged T"
  shows "pool_ok (T\<lparr>encode_map := em,
                    decode_map := fmupd (next_symbol T) sv (decode_map T)\<rparr>)"
  using assms unfolding staged_def pool_ok_def by auto

lemma newSymbol_staged:
  assumes "pool_ok X" and "newSymbol X = Inr T'"
  shows "staged T'"
proof (cases "pool X")
  case Nil
  with assms(2) have nz: "monotonic_counter X + 1 \<noteq> 0"
    and T': "T' = X\<lparr>monotonic_counter := monotonic_counter X + 1,
                     next_symbol := monotonic_counter X + 1\<rparr>"
    by (auto simp: newSymbol_def Let_def split: if_splits)
  have fresh: "fmlookup (decode_map X) (monotonic_counter X + 1) = None"
  proof (rule ccontr)
    assume "fmlookup (decode_map X) (monotonic_counter X + 1) \<noteq> None"
    then obtain s where "fmlookup (decode_map X) (monotonic_counter X + 1) = Some s"
      by auto
    with assms(1) have "monotonic_counter X + 1 \<le> monotonic_counter X"
      unfolding pool_ok_def by blast
    with word_succ_less [OF nz] show False
      by simp
  qed
  show ?thesis
    using assms(1) Nil fresh word_le_succ [OF nz]
    unfolding T' staged_def pool_ok_def by auto
next
  case (Cons top_symbol rest)
  with assms(2) have T': "T' = X\<lparr>next_symbol := top_symbol, pool := rest\<rparr>"
    by (auto simp: newSymbol_def Let_def split: if_splits)
  show ?thesis
    using assms(1) Cons unfolding T' staged_def pool_ok_def by auto
qed

lemma newSymbol_maps:
  "newSymbol X = Inr T' \<Longrightarrow> encode_map T' = encode_map X \<and> decode_map T' = decode_map X"
  by (auto simp: newSymbol_def Let_def split: if_splits list.splits)

lemma staged_ref_count:
  "staged T \<Longrightarrow> staged (T\<lparr>encode_map := em\<rparr>)"
  by (simp add: staged_def pool_ok_def)

lemma staged_erase:
  assumes "staged T" and "fmlookup (decode_map T) s = Some str"
  shows "staged (T\<lparr>decode_map := fmdrop s (decode_map T), encode_map := em, pool := s # pool T\<rparr>)"
  using assms unfolding staged_def pool_ok_def by auto

lemma toSymbol_inv:
  assumes "table_inv T" and "toSymbol T sv = Inr (T', s)"
  shows "table_inv T'"
proof (cases "fmlookup (encode_map T) sv")
  case None
  let ?X = "T\<lparr>encode_map := fmupd sv \<lparr>symbol = next_symbol T, ref_count = 1\<rparr> (encode_map T),
               decode_map := fmupd (next_symbol T) sv (decode_map T)\<rparr>"
  from assms(2) None have ns: "newSymbol ?X = Inr T'"
    by (auto simp: toSymbol_def split: if_splits sum.splits)
  from assms(1) have free: "fmlookup (decode_map T) (next_symbol T) = None"
    by (simp add: table_inv_def staged_def)
  have "bimap ?X"
    using assms(1) None free by (intro bimap_insert) (simp_all add: table_inv_def)
  then have "bimap T'"
    using newSymbol_maps [OF ns] bimap_cong [of T' ?X] by simp
  moreover have "pool_ok ?X"
    using assms(1) by (intro pool_ok_insert) (simp add: table_inv_def)
  then have "staged T'"
    using ns by (rule newSymbol_staged)
  ultimately show ?thesis
    by (simp add: table_inv_def)
next
  case (Some shared)
  with assms(2) have "T' = T\<lparr>encode_map :=
       fmupd sv (shared\<lparr>ref_count := ref_count shared + 1\<rparr>) (encode_map T)\<rparr>"
    by (simp add: toSymbol_def)
  then show ?thesis
    using assms(1) Some by (simp add: table_inv_def bimap_ref_count staged_ref_count)
qed

lemma toSymbols_inv:
  "table_inv T \<Longrightarrow> toSymbols T tokens = Inr (T', symbols) \<Longrightarrow> table_inv T'"
proof (induction tokens arbitrary: T symbols)
  case Nil
  then show ?case by simp
next
  case (Cons token tokens)
  from Cons.prems(2) obtain T1 s symbols' where
    a: "toSymbol T token = Inr (T1, s)" and b: "toSymbols T1 tokens = Inr (T', symbols')"
    by (auto split: sum.splits)
  from toSymbol_inv [OF Cons.prems(1) a] have "table_inv T1" .
  from Cons.IH [OF this b] show ?case .
qed

lemma encode_inv:
  "table_inv T \<Longrightarrow> encode T name = Inr (T', encoding) \<Longrightarrow> table_inv T'"
  by (auto simp: encode_def split: if_splits sum.splits dest: toSymbols_inv)

lemma freeLoop_inv:
  "table_inv T \<Longrightarrow> freeLoop T symbols = Inr T' \<Longrightarrow> table_inv T'"
proof (induction symbols arbitrary: T)
  case Nil
  then show ?case by simp
next
  case (Cons s symbols)
  from Cons.prems(2) obtain str shared where
    d: "fmlookup (decode_map T) s = Some str" and e: "fmlookup (encode_map T) str = Some shared"
    by (auto split: option.splits)
  show ?case
  proof (cases "ref_count shared - 1 = 0")
    case True
    let ?X = "T\<lparr>decode_map := fmdrop s (decode_map T),
                 encode_map := fmdrop str (encode_map T), pool := s # pool T\<rparr>"
    have "table_inv ?X"
      using Cons.prems(1) d by (simp add: table_inv_def bimap_erase staged_erase)
    moreover have "freeLoop ?X symbols = Inr T'"
      using Cons.prems(2) d e True by simp
    ultimately show ?thesis
      by (rule Cons.IH)
  next
    case False
    let ?X = "T\<lparr>encode_map :=
                 fmupd str (shared\<lparr>ref_count := ref_count shared - 1\<rparr>) (encode_map T)\<rparr>"
    have "table_inv ?X"
      using Cons.prems(1) e by (simp add: table_inv_def bimap_ref_count staged_ref_count)
    moreover have "freeLoop ?X symbols = Inr T'"
      using Cons.prems(2) d e False by simp
    ultimately show ?thesis
      by (rule Cons.IH)
  qed
qed

lemma incRefCountLoop_inv:
  "table_inv T \<Longrightarrow> incRefCountLoop T symbols = Inr T' \<Longrightarrow> table_inv T'"
proof (induction symbols arbitrary: T)
  case Nil
  then show ?case by simp
next
  case (Cons s symbols)
  from Cons.prems(2) obtain str shared where
    d: "fmlookup (decode_map T) s = Some str" and e: "fmlookup (encode_map T) str = Some shared"
    by (auto split: option.splits)
  let ?X = "T\<lparr>encode_map :=
               fmupd str (shared\<lparr>ref_count := ref_count shared + 1\<rparr>) (encode_map T)\<rparr>"
  have "table_inv ?X"
    using Cons.prems(1) e by (simp add: table_inv_def bimap_ref_count staged_ref_count)
  moreover have "incRefCountLoop ?X symbols = Inr T'"
    using Cons.prems(2) d e by simp
  ultimately show ?case
    by (rule Cons.IH)
qed

lemma apply_op_inv:
  "table_inv T \<Longrightarrow> apply_op T operation = Inr T' \<Longrightarrow> table_inv T'"
  by (cases operation)
    (auto simp: free_def incRefCount_def split: sum.splits
      dest: encode_inv freeLoop_inv incRefCountLoop_inv)

lemma run_ops_inv:
  "table_inv T \<Longrightarrow> run_ops T ops = Inr T' \<Longrightarrow> table_inv T'"
proof (induction ops arbitrary: T)
  case Nil
  then show ?case by simp
next
  case (Cons operation ops)
  from Cons.prems(2) obtain T1 where
    a: "apply_op T operation = Inr T1" and b: "run_ops T1 ops = Inr T'"
    by (auto split: sum.splits)
  from apply_op_inv [OF Cons.prems(1) a] have "table_inv T1" .
  from Cons.IH [OF this b] show ?case .
qed

lemma init_inv: "table_inv SymbolTable_init"
  by (simp add: table_inv_def bimap_def staged_def pool_ok_def SymbolTable_init_def)

lemma reachable_inv: "run_ops SymbolTable_init ops = Inr T \<Longrightarrow> table_inv T"
  using init_inv by (rule run_ops_inv)

lemma bimap_sizes:
  assumes "bimap T"
  shows "fcard (fmdom (encode_map T)) = fcard (fmdom (decode_map T))"
proof -
  let ?f = "\<lambda>s. symbol (the (fmlookup (encode_map T) s))"
  have img: "?f ` fmdom' (encode_map T) = fmdom' (decode_map T)"
  proof (intro set_eqI iffI)
    fix i
    assume "i \<in> ?f ` fmdom' (encode_map T)"
    then obtain s shared where "fmlookup (encode_map T) s = Some shared" and "i = symbol shared"
      by (auto simp: fmlookup_dom'_iff)
    with bimapD1 [OF assms] show "i \<in> fmdom' (decode_map T)"
      by (auto simp: fmlookup_dom'_iff)
  next
    fix i
    assume "i \<in> fmdom' (decode_map T)"
    then obtain s where "fmlookup (decode_map T) i = Some s"
      by (auto simp: fmlookup_dom'_iff)
    from bimapD2 [OF assms this] obtain shared where
      "fmlookup (encode_map T) s = Some shared" and "symbol shared = i"
      by blast
    then have "s \<in> fmdom' (encode_map T)" and "?f s = i"
      by (auto simp: fmlookup_dom'_iff)
    then show "i \<in> ?f ` fmdom' (encode_map T)"
      by blast
  qed
  have inj: "inj_on ?f (fmdom' (encode_map T))"
  proof (rule inj_onI)
    fix s t
    assume "s \<in> fmdom' (encode_map T)" and "t \<in> fmdom' (encode_map T)" and eq: "?f s = ?f t"
    then obtain a b where a: "fmlookup (encode_map T) s = Some a"
      and b: "fmlookup (encode_map T) t = Some b"
      by (auto simp: fmlookup_dom'_iff)
    from bimapD1 [OF assms a] bimapD1 [OF assms b] eq a b show "s = t"
      by simp
  qed
  have "card (fmdom' (decode_map T)) = card (fmdom' (encode_map T))"
    unfolding img [symmetric] using inj by (rule card_image)
  then show ?thesis
    by (simp add: fcard.rep_eq fmdom'_alt_def)
qed

text \<open>
  Claim C6.  In every table state reached from a fresh table by \<open>encode\<close>, \<open>free\<close> and
  \<open>incRefCount\<close>, the encode map and the decode map have the same number of entries and
  are inverse to each other: a string is mapped to an id by the encode map exactly when
  the decode map maps that id to the string.  In particular the assertion of
  \<open>numSymbols\<close> holds there.
\<close>

theorem bimap_reachable:
  assumes "run_ops SymbolTable_init ops = Inr T"
  shows "fcard (fmdom (encode_map T)) = fcard (fmdom (decode_map T))
       \<and> (\<forall>s i. (\<exists>shared. fmlookup (encode_map T) s = Some shared \<and> symbol shared = i)
                 \<longleftrightarrow> fmlookup (decode_map T) i = Some s)
       \<and> numSymbols T = Inr (fcard (fmdom (decode_map T)))"
proof -
  from reachable_inv [OF assms] have b: "bimap T"
    by (simp add: table_inv_def)
  have "(\<exists>shared. fmlookup (encode_map T) s = Some shared \<and> symbol shared = i)
          \<longleftrightarrow> fmlookup (decode_map T) i = Some s" for s i
    using bimapD1 [OF b] bimapD2 [OF b] by blast
  then show ?thesis
    using bimap_sizes [OF b] by (simp add: numSymbols_def)
qed

lemmas model_defs =
  encode_def StrSplit_def toSymbol_def newSymbol_def SymbolTable_init_def
  free_def incRefCount_def dataSize_def data_def decodeSymbols_def
  StatNameSizeEncodingBytes_def StatNameMaxSize_def Low7Bits_def SpilloverMask_def
  moveToStorage_def saveLengthToBytesReturningNext_def StatNameStorage_def
  decode_def decodeSymbolVec_def fromSymbol_def toString_def addSymbol.simps
  fmdrop_fmupd

theorem bimap_reachable_witness:
  "run_ops SymbolTable_init [Encode ''a.b''] =
     Inr \<lparr>next_symbol = 2, monotonic_counter = 2,
          encode_map = fmupd ''b'' \<lparr>symbol = 1, ref_count = 1\<rparr>
                         (fmupd ''a'' \<lparr>symbol = 0, ref_count = 1\<rparr> fmempty),
          decode_map = fmupd 1 ''b'' (fmupd 0 ''a'' fmempty), pool = []\<rparr>
   \<and> fcard (fmdom (fmupd ''b'' \<lparr>symbol = 1, ref_count = 1\<rparr>
                         (fmupd ''a'' \<lparr>symbol = 0, ref_count = 1\<rparr> fmempty)))
       = fcard (fmdom (fmupd (1 :: Symbol) ''b'' (fmupd 0 ''a'' fmempty)))"
proof -
  have h: "run_ops SymbolTable_init [Encode ''a.b''] =
     Inr \<lparr>next_symbol = 2, monotonic_counter = 2,
          encode_map = fmupd ''b'' \<lparr>symbol = 1, ref_count = 1\<rparr>
                         (fmupd ''a'' \<lparr>symbol = 0, ref_count = 1\<rparr> fmempty),
          decode_map = fmupd 1 ''b'' (fmupd 0 ''a'' fmempty), pool = []\<rparr>"
    by (simp add: model_defs)
  from bimap_reachable [OF h] h show ?thesis
    by simp
qed

lemma newSymbol_counter:
  assumes "newSymbol X = Inr T'"
  shows "monotonic_counter X \<le> monotonic_counter T'"
proof (cases "pool X")
  case Nil
  with assms have "monotonic_counter X + 1 \<noteq> 0"
    and "monotonic_counter T' = monotonic_counter X + 1"
    by (auto simp: newSymbol_def Let_def split: if_splits)
  with word_succ_less [of "monotonic_counter X"] show ?thesis
    by simp
next
  case (Cons top_symbol rest)
  with assms show ?thesis
    by (auto simp: newSymbol_def Let_def split: if_splits)
qed

lemma toSymbol_counter:
  assumes "toSymbol T sv = Inr (T', s)"
  shows "monotonic_counter T \<le> monotonic_counter T'"
proof (cases "fmlookup (encode_map T) sv")
  case None
  with assms obtain X where "newSymbol X = Inr T'" and "monotonic_counter X = monotonic_counter T"
    by (auto simp: toSymbol_def split: if_splits sum.splits)
  with newSymbol_counter [of X T'] show ?thesis
    by simp
next
  case (Some shared)
  with assms show ?thesis
    by (auto simp: toSymbol_def)
qed

lemma toSymbols_counter:
  "toSymbols T tokens = Inr (T', symbols) \<Longrightarrow> monotonic_counter T \<le> monotonic_counter T'"
proof (induction tokens arbitrary: T symbols)
  case Nil
  then show ?case by simp
next
  case (Cons token tokens)
  from Cons.prems obtain T1 s symbols' where
    a: "toSymbol T token = Inr (T1, s)" and b: "toSymbols T1 tokens = Inr (T', symbols')"
    by (auto split: sum.splits)
  from toSymbol_counter [OF a] Cons.IH [OF b] show ?case
    by simp
qed

lemma encode_counter:
  "encode T name = Inr (T', encoding) \<Longrightarrow> monotonic_counter T \<le> monotonic_counter T'"
  by (auto simp: encode_def split: if_splits sum.splits dest: toSymbols_counter)

lemma freeLoop_counter:
  "freeLoop T symbols = Inr T' \<Longrightarrow> monotonic_counter T' = monotonic_counter T"
proof (induction symbols arbitrary: T)
  case Nil
  then show ?case by simp
next
  case (Cons s symbols)
  from Cons.prems obtain X where "freeLoop X symbols = Inr T'"
    and "monotonic_counter X = monotonic_counter T"
    by (auto split: option.splits if_splits)
  with Cons.IH [of X] show ?case
    by simp
qed

lemma incRefCountLoop_counter:
  "incRefCountLoop T symbols = Inr T' \<Longrightarrow> monotonic_counter T' = monotonic_counter T"
proof (induction symbols arbitrary: T)
  case Nil
  then show ?case by simp
next
  case (Cons s symbols)
  from Cons.prems obtain X where "incRefCountLoop X symbols = Inr T'"
    and "monotonic_counter X = monotonic_counter T"
    by (auto split: option.splits)
  with Cons.IH [of X] show ?case
    by simp
qed

lemma apply_op_counter:
  "apply_op T operation = Inr T' \<Longrightarrow> monotonic_counter T \<le> monotonic_counter T'"
  by (cases operation)
    (auto simp: free_def incRefCount_def split: sum.splits
      dest: encode_counter freeLoop_counter incRefCountLoop_counter)

lemma newSymbol_wrap:
  "pool X = [] \<Longrightarrow> monotonic_counter X = 0xFFFFFFFF \<Longrightarrow> newSymbol X = Inl AssertFailure"
  by (simp add: newSymbol_def)

lemma newSymbol_stages:
  assumes "newSymbol X = Inr T'"
  shows "case pool X of
           [] \<Rightarrow> next_symbol T' = monotonic_counter T' \<and>
                 monotonic_counter T' = monotonic_counter X + 1 \<and> pool T' = []
         | top_symbol # rest \<Rightarrow> next_symbol T' = top_symbol \<and> pool T' = rest \<and>
                 monotonic_counter T' = monotonic_counter X"
  using assms by (auto simp: newSymbol_def Let_def split: if_splits list.splits)

lemma freeLoop_pool:
  "freeLoop T symbols = Inr T' \<Longrightarrow>
   next_symbol T' = next_symbol T
   \<and> fmdom' (decode_map T') \<subseteq> fmdom' (decode_map T)
   \<and> (\<exists>pushed. pool T' = pushed @ pool T
         \<and> set pushed = fmdom' (decode_map T) - fmdom' (decode_map T'))"
proof (induction symbols arbitrary: T)
  case Nil
  then show ?case by simp
next
  case (Cons s symbols)
  from Cons.prems obtain str shared where
    d: "fmlookup (decode_map T) s = Some str" and e: "fmlookup (encode_map T) str = Some shared"
    by (auto split: option.splits)
  show ?case
  proof (cases "ref_count shared - 1 = 0")
    case True
    let ?X = "T\<lparr>decode_map := fmdrop s (decode_map T),
                 encode_map := fmdrop str (encode_map T), pool := s # pool T\<rparr>"
    have "freeLoop ?X symbols = Inr T'"
      using Cons.prems d e True by simp
    from Cons.IH [OF this] obtain pushed where
      n: "next_symbol T' = next_symbol T"
      and sub: "fmdom' (decode_map T') \<subseteq> fmdom' (decode_map T) - {s}"
      and p: "pool T' = pushed @ s # pool T"
      and st: "set pushed = (fmdom' (decode_map T) - {s}) - fmdom' (decode_map T')"
      by auto
    from d have "s \<in> fmdom' (decode_map T)"
      by (rule fmdom'I)
    with sub st have "set (pushed @ [s]) = fmdom' (decode_map T) - fmdom' (decode_map T')"
      by auto
    moreover from p have "pool T' = (pushed @ [s]) @ pool T"
      by simp
    ultimately show ?thesis
      using n sub by blast
  next
    case False
    let ?X = "T\<lparr>encode_map :=
                 fmupd str (shared\<lparr>ref_count := ref_count shared - 1\<rparr>) (encode_map T)\<rparr>"
    have "freeLoop ?X symbols = Inr T'"
      using Cons.prems d e False by simp
    from Cons.IH [OF this] show ?thesis
      by simp
  qed
qed

lemma free_pool:
  "free T stat_name = Inr T' \<Longrightarrow>
   next_symbol T' = next_symbol T
   \<and> (\<exists>pushed. pool T' = pushed @ pool T
         \<and> set pushed = fmdom' (decode_map T) - fmdom' (decode_map T'))"
  by (auto simp: free_def split: sum.splits dest: freeLoop_pool)

text \<open>
  Claim C5, as amended.  In every table state reached by \<open>encode\<close>, \<open>free\<close> and
  \<open>incRefCount\<close>, \<open>next_symbol\<close> is an id that is not in the free list, not in the decode
  map and at most \<open>monotonic_counter\<close>: \<open>newSymbol\<close> sets it to the top of the free list,
  which it pops, or else to the incremented \<open>monotonic_counter\<close> itself, and \<open>free\<close>
  leaves \<open>next_symbol\<close> as it is while it pushes onto the free list exactly the ids it
  erases from the decode map.  No operation decreases \<open>monotonic_counter\<close>, and
  \<open>newSymbol\<close> fails its assertion when the counter wraps to zero.
\<close>

theorem next_symbol_staged:
  assumes "run_ops SymbolTable_init ops = Inr T"
  shows "next_symbol T \<notin> set (pool T)
       \<and> fmlookup (decode_map T) (next_symbol T) = None
       \<and> next_symbol T \<le> monotonic_counter T
       \<and> (\<forall>X T'. newSymbol X = Inr T' \<longrightarrow>
            (case pool X of
               [] \<Rightarrow> next_symbol T' = monotonic_counter T' \<and>
                     monotonic_counter T' = monotonic_counter X + 1 \<and> pool T' = []
             | top_symbol # rest \<Rightarrow> next_symbol T' = top_symbol \<and> pool T' = rest \<and>
                     monotonic_counter T' = monotonic_counter X))
       \<and> (\<forall>stat_name T'. free T stat_name = Inr T' \<longrightarrow>
            next_symbol T' = next_symbol T
            \<and> (\<exists>pushed. pool T' = pushed @ pool T
                  \<and> set pushed = fmdom' (decode_map T) - fmdom' (decode_map T')))
       \<and> (\<forall>operation T'. apply_op T operation = Inr T' \<longrightarrow>
            monotonic_counter T \<le> monotonic_counter T')
       \<and> (\<forall>X. pool X = [] \<and> monotonic_counter X = 0xFFFFFFFF \<longrightarrow>
            newSymbol X = Inl AssertFailure)"
proof -
  from reachable_inv [OF assms] have "staged T"
    by (simp add: table_inv_def)
  then have "next_symbol T \<notin> set (pool T)"
    and "fmlookup (decode_map T) (next_symbol T) = None"
    and "next_symbol T \<le> monotonic_counter T"
    by (simp_all add: staged_def)
  moreover have "next_symbol T' = next_symbol T
            \<and> (\<exists>pushed. pool T' = pushed @ pool T
                  \<and> set pushed = fmdom' (decode_map T) - fmdom' (decode_map T'))"
    if "free T stat_name = Inr T'" for stat_name T'
    using that by (rule free_pool)
  ultimately show ?thesis
    using newSymbol_stages apply_op_counter newSymbol_wrap by blast
qed

theorem next_symbol_staged_witness:
  "run_ops SymbolTable_init [Encode ''a'', Free [1, 0, 0]] =
     Inr \<lparr>next_symbol = 1, monotonic_counter = 1,
          encode_map = fmempty, decode_map = fmempty, pool = [0]\<rparr>
   \<and> (1 :: Symbol) \<notin> set [0] \<and> (1 :: Symbol) \<le> 1
   \<and> newSymbol \<lparr>next_symbol = 1, monotonic_counter = 1,
          encode_map = fmempty, decode_map = fmempty, pool = [0]\<rparr>
       = Inr \<lparr>next_symbol = 0, monotonic_counter = 1,
          encode_map = fmempty, decode_map = fmempty, pool = []\<rparr>
   \<and> newSymbol \<lparr>next_symbol = 7, monotonic_counter = 0xFFFFFFFF,
          encode_map = fmempty, decode_map = fmempty, pool = []\<rparr> = Inl AssertFailure
   \<and> run_ops SymbolTable_init [Encode ''a''] =
     Inr \<lparr>next_symbol = 1, monotonic_counter = 1,
          encode_map = fmupd ''a'' \<lparr>symbol = 0, ref_count = 1\<rparr> fmempty,
          decode_map = fmupd 0 ''a'' fmempty, pool = []\<rparr>
   \<and> free \<lparr>next_symbol = 1, monotonic_counter = 1,
          encode_map = fmupd ''a'' \<lparr>symbol = 0, ref_count = 1\<rparr> fmempty,
          decode_map = fmupd 0 ''a'' fmempty, pool = []\<rparr> [1, 0, 0] =
     Inr \<lparr>next_symbol = 1, monotonic_counter = 1,
          encode_map = fmempty, decode_map = fmempty, pool = [0]\<rparr>
   \<and> set [0 :: Symbol] = fmdom' (fmupd (0 :: Symbol) ''a'' fmempty) - fmdom' fmempty"
  (is "?A \<and> ?B \<and> ?C \<and> ?D \<and> ?E \<and> ?F \<and> ?G \<and> ?H")
proof -
  have h: ?A
    by (simp add: model_defs)
  from next_symbol_staged [OF h] have b: ?B and c: ?C and d: ?D and e: ?E
    by (simp_all add: newSymbol_def)
  have f: ?F
    by (simp add: model_defs)
  have g: ?G
    by (simp add: model_defs)
  from next_symbol_staged [OF f] g have
    "\<exists>pushed. [0 :: Symbol] = pushed @ []
       \<and> set pushed = fmdom' (fmupd (0 :: Symbol) ''a'' fmempty) - fmdom' fmempty"
    by fastforce
  then have i: ?H
    by simp
  from h b c d e f g i show ?thesis
    by blast
qed

text \<open>
  Claim C5 as stated fails in the fresh table, whose free list is empty while
  \<open>next_symbol\<close> is 0 and not \<open>monotonic_counter + 1\<close>; and after \<open>encode\<close> of \<open>a\<close> and
  \<open>free\<close> of its name, where the free list has top 0 while \<open>next_symbol\<close> is 1.
\<close>

theorem next_symbol_counterexample:
  "pool SymbolTable_init = []
   \<and> next_symbol SymbolTable_init \<noteq> monotonic_counter SymbolTable_init + 1
   \<and> run_ops SymbolTable_init [Encode ''a'', Free [1, 0, 0]] =
       Inr \<lparr>next_symbol = 1, monotonic_counter = 1,
            encode_map = fmempty, decode_map = fmempty, pool = [0]\<rparr>"
  by (simp add: model_defs)

text \<open>
  Claim C3, as amended.  Id 0 is not reserved: the first token interned into a fresh
  table receives id 0.  In every table state reached from a fresh table by \<open>encode\<close>,
  \<open>free\<close> and \<open>incRefCount\<close>, every id in the two maps is at most \<open>monotonic_counter\<close>
  and differs from \<open>next_symbol\<close>.
\<close>

theorem ids_within_counter:
  assumes "run_ops SymbolTable_init ops = Inr T"
  shows "(\<forall>s shared. fmlookup (encode_map T) s = Some shared \<longrightarrow>
            symbol shared \<le> monotonic_counter T \<and> symbol shared \<noteq> next_symbol T)
       \<and> (\<forall>i str. fmlookup (decode_map T) i = Some str \<longrightarrow>
            i \<le> monotonic_counter T \<and> i \<noteq> next_symbol T)
       \<and> (\<exists>T1. toSymbol SymbolTable_init sv = Inr (T1, 0)
               \<and> fmlookup (decode_map T1) 0 = Some sv)"
proof -
  from reachable_inv [OF assms] have b: "bimap T" and s: "staged T"
    by (simp_all add: table_inv_def)
  have d: "i \<le> monotonic_counter T \<and> i \<noteq> next_symbol T"
    if "fmlookup (decode_map T) i = Some str" for i str
    using s that unfolding staged_def pool_ok_def by auto
  have e: "symbol shared \<le> monotonic_counter T \<and> symbol shared \<noteq> next_symbol T"
    if "fmlookup (encode_map T) t = Some shared" for t shared
    using bimapD1 [OF b that] by (rule d)
  have "\<exists>T1. toSymbol SymbolTable_init sv = Inr (T1, 0) \<and> fmlookup (decode_map T1) 0 = Some sv"
    by (simp add: toSymbol_def newSymbol_def SymbolTable_init_def)
  with d e show ?thesis
    by blast
qed

theorem ids_within_counter_witness:
  "run_ops SymbolTable_init [Encode ''a.b''] =
     Inr \<lparr>next_symbol = 2, monotonic_counter = 2,
          encode_map = fmupd ''b'' \<lparr>symbol = 1, ref_count = 1\<rparr>
                         (fmupd ''a'' \<lparr>symbol = 0, ref_count = 1\<rparr> fmempty),
          decode_map = fmupd 1 ''b'' (fmupd 0 ''a'' fmempty), pool = []\<rparr>
   \<and> (0 :: Symbol) \<le> 2 \<and> (0 :: Symbol) \<noteq> 2 \<and> (1 :: Symbol) \<le> 2 \<and> (1 :: Symbol) \<noteq> 2"
proof -
  have h: "run_ops SymbolTable_init [Encode ''a.b''] =
     Inr \<lparr>next_symbol = 2, monotonic_counter = 2,
          encode_map = fmupd ''b'' \<lparr>symbol = 1, ref_count = 1\<rparr>
                         (fmupd ''a'' \<lparr>symbol = 0, ref_count = 1\<rparr> fmempty),
          decode_map = fmupd 1 ''b'' (fmupd 0 ''a'' fmempty), pool = []\<rparr>"
    by (simp add: model_defs)
  from ids_within_counter [OF h, of "''a''"] h show ?thesis
    by simp
qed

text \<open>
  Claim C3 as stated fails: the first token interned into a fresh table receives id 0,
  and the table reached by encoding \<open>a\<close> has id 0 in both maps.
\<close>

theorem first_id_counterexample:
  "toSymbol SymbolTable_init ''a'' =
     Inr (\<lparr>next_symbol = 1, monotonic_counter = 1,
           encode_map = fmupd ''a'' \<lparr>symbol = 0, ref_count = 1\<rparr> fmempty,
           decode_map = fmupd 0 ''a'' fmempty, pool = []\<rparr>, 0)
   \<and> run_ops SymbolTable_init [Encode ''a''] =
     Inr \<lparr>next_symbol = 1, monotonic_counter = 1,
           encode_map = fmupd ''a'' \<lparr>symbol = 0, ref_count = 1\<rparr> fmempty,
           decode_map = fmupd 0 ''a'' fmempty, pool = []\<rparr>"
  by (simp add: model_defs)

section \<open>Encoding and decoding a name\<close>

lemma StrSplitFrom_not_Nil: "StrSplitFrom s d cur \<noteq> []"
  by (induction s arbitrary: cur) auto

lemma StrJoin_Cons: "ts \<noteq> [] \<Longrightarrow> StrJoin (t # ts) sep = t @ sep @ StrJoin ts sep"
  by (cases ts) auto

lemma StrJoin_StrSplitFrom: "StrJoin (StrSplitFrom s d cur) [d] = cur @ s"
  by (induction s arbitrary: cur) (auto simp: StrJoin_Cons StrSplitFrom_not_Nil)

lemma StrJoin_StrSplit: "StrJoin (StrSplit s d) [d] = s"
  by (simp add: StrSplit_def StrJoin_StrSplitFrom)

lemma StrJoin_append:
  "xs \<noteq> [] \<Longrightarrow> ys \<noteq> [] \<Longrightarrow> StrJoin (xs @ ys) sep = StrJoin xs sep @ sep @ StrJoin ys sep"
proof (induction xs)
  case Nil
  then show ?case by simp
next
  case (Cons x xs)
  show ?case
  proof (cases "xs = []")
    case True
    with Cons.prems show ?thesis by (simp add: StrJoin_Cons)
  next
    case False
    with Cons show ?thesis by (simp add: StrJoin_Cons)
  qed
qed

lemma toSymbol_cases:
  assumes "toSymbol T sv = Inr (T', s)"
  obtains (fresh) "fmlookup (encode_map T) sv = None" and "s = next_symbol T"
      and "fmlookup (decode_map T) (next_symbol T) = None"
      and "newSymbol (T\<lparr>encode_map := fmupd sv \<lparr>symbol = next_symbol T, ref_count = 1\<rparr> (encode_map T),
                         decode_map := fmupd (next_symbol T) sv (decode_map T)\<rparr>) = Inr T'"
    | (known) shared where "fmlookup (encode_map T) sv = Some shared" and "s = symbol shared"
      and "T' = T\<lparr>encode_map :=
                    fmupd sv (shared\<lparr>ref_count := ref_count shared + 1\<rparr>) (encode_map T)\<rparr>"
proof (cases "fmlookup (encode_map T) sv")
  case None
  with assms show ?thesis
    by (intro fresh) (auto simp: toSymbol_def fmlookup_dom_iff split: if_splits sum.splits)
next
  case (Some shared)
  with assms show ?thesis
    by (intro known [of shared]) (auto simp: toSymbol_def)
qed

lemma toSymbol_lookup:
  assumes "table_inv T" and "toSymbol T sv = Inr (T', s)"
  shows "fmlookup (decode_map T') s = Some sv"
  using assms(2)
proof (cases rule: toSymbol_cases)
  case fresh
  from newSymbol_maps [OF fresh(4)] fresh(2) show ?thesis
    by simp
next
  case (known shared)
  from assms(1) have "bimap T"
    by (simp add: table_inv_def)
  from bimapD1 [OF this known(1)] known(2,3) show ?thesis
    by simp
qed

lemma toSymbol_decode_mono:
  assumes "toSymbol T sv = Inr (T', s)" and "fmlookup (decode_map T) i = Some x"
  shows "fmlookup (decode_map T') i = Some x"
  using assms(1)
proof (cases rule: toSymbol_cases)
  case fresh
  from fresh(3) assms(2) have "next_symbol T \<noteq> i"
    by auto
  with newSymbol_maps [OF fresh(4)] assms(2) show ?thesis
    by simp
next
  case (known shared)
  with assms(2) show ?thesis
    by simp
qed

lemma toSymbols_decode_mono:
  "toSymbols T tokens = Inr (T', symbols) \<Longrightarrow> fmlookup (decode_map T) i = Some x \<Longrightarrow>
   fmlookup (decode_map T') i = Some x"
proof (induction tokens arbitrary: T symbols)
  case Nil
  then show ?case by simp
next
  case (Cons token tokens)
  from Cons.prems(1) obtain T1 s symbols' where
    a: "toSymbol T token = Inr (T1, s)" and b: "toSymbols T1 tokens = Inr (T', symbols')"
    by (auto split: sum.splits)
  from toSymbol_decode_mono [OF a Cons.prems(2)] have "fmlookup (decode_map T1) i = Some x" .
  from Cons.IH [OF b this] show ?case .
qed

lemma toSymbols_fromSymbols:
  "table_inv T \<Longrightarrow> toSymbols T tokens = Inr (T', symbols) \<Longrightarrow>
   fromSymbols T' symbols = Inr tokens"
proof (induction tokens arbitrary: T symbols)
  case Nil
  then show ?case by simp
next
  case (Cons token tokens)
  from Cons.prems(2) obtain T1 s symbols' where
    a: "toSymbol T token = Inr (T1, s)" and b: "toSymbols T1 tokens = Inr (T', symbols')"
    and c: "symbols = s # symbols'"
    by (auto split: sum.splits)
  from toSymbol_inv [OF Cons.prems(1) a] have inv1: "table_inv T1" .
  from toSymbol_lookup [OF Cons.prems(1) a] have "fmlookup (decode_map T1) s = Some token" .
  from toSymbols_decode_mono [OF b this] have "fmlookup (decode_map T') s = Some token" .
  with Cons.IH [OF inv1 b] c show ?case
    by (simp add: fromSymbol_def)
qed

lemma decode_addSymbols:
  "decode T (addSymbols symbols []) (length (addSymbols symbols [])) = decodeSymbolVec T symbols"
  by (simp add: decode_def decodeSymbols_addSymbols)

lemma encode_decode:
  assumes "table_inv T" and "encode T name = Inr (T', encoding)"
  shows "decode T' encoding (length encoding) = Inr name"
proof (cases "name = []")
  case True
  with assms(2) show ?thesis
    by (simp add: encode_def decode_def decodeSymbols_def decodeSymbolVec_def)
next
  case False
  with assms(2) obtain symbols where
    t: "toSymbols T (StrSplit name CHR ''.'') = Inr (T', symbols)"
    and e: "encoding = addSymbols symbols []"
    by (auto simp: encode_def split: sum.splits)
  from toSymbols_fromSymbols [OF assms(1) t] show ?thesis
    unfolding e decode_addSymbols by (simp add: decodeSymbolVec_def StrJoin_StrSplit)
qed

lemma staged_pool_counter:
  assumes "staged T" and "pool T \<noteq> []"
  shows "monotonic_counter T \<noteq> 0"
proof
  assume z: "monotonic_counter T = 0"
  from assms(2) obtain i where i: "i \<in> set (pool T)"
    by (cases "pool T") auto
  with assms(1) z have "i = 0" and "next_symbol T = 0"
    unfolding staged_def pool_ok_def by auto
  with i assms(1) show False
    unfolding staged_def by auto
qed

lemma toSymbol_returns:
  assumes "table_inv T" and "unat (monotonic_counter T) + 1 < 2 ^ 32"
  shows "\<exists>T' s. toSymbol T sv = Inr (T', s)
           \<and> unat (monotonic_counter T') \<le> unat (monotonic_counter T) + 1"
proof (cases "fmlookup (encode_map T) sv")
  case None
  from assms(1) have st: "staged T"
    by (simp add: table_inv_def)
  then have free: "next_symbol T |\<notin>| fmdom (decode_map T)"
    by (simp add: staged_def fmlookup_dom_iff)
  have u: "unat (monotonic_counter T + 1) = unat (monotonic_counter T) + 1"
    using assms(2) by (simp add: unat_word_ariths)
  then have nz: "monotonic_counter T + 1 \<noteq> 0"
    by (metis add_is_0 unat_0 zero_neq_one)
  show ?thesis
  proof (cases "pool T")
    case Nil
    then show ?thesis
      using None free nz u by (simp add: toSymbol_def newSymbol_def)
  next
    case (Cons top_symbol rest)
    with staged_pool_counter [OF st] have "monotonic_counter T \<noteq> 0"
      by simp
    then show ?thesis
      using None free Cons by (simp add: toSymbol_def newSymbol_def)
  qed
next
  case (Some shared)
  then show ?thesis
    by (simp add: toSymbol_def)
qed

lemma toSymbols_returns:
  "table_inv T \<Longrightarrow> unat (monotonic_counter T) + length tokens < 2 ^ 32 \<Longrightarrow>
   \<exists>T' symbols. toSymbols T tokens = Inr (T', symbols)"
proof (induction tokens arbitrary: T)
  case Nil
  then show ?case by simp
next
  case (Cons token tokens)
  from Cons.prems(2) have "unat (monotonic_counter T) + 1 < 2 ^ 32"
    by simp
  from toSymbol_returns [OF Cons.prems(1) this, of token] obtain T1 s where
    a: "toSymbol T token = Inr (T1, s)"
    and c: "unat (monotonic_counter T1) \<le> unat (monotonic_counter T) + 1"
    by blast
  from toSymbol_inv [OF Cons.prems(1) a] have inv1: "table_inv T1" .
  from c Cons.prems(2) have "unat (monotonic_counter T1) + length tokens < 2 ^ 32"
    by simp
  from Cons.IH [OF inv1 this] a show ?case
    by auto
qed

lemma encode_returns:
  assumes "table_inv T"
    and "unat (monotonic_counter T) + length (StrSplit name CHR ''.'') < 2 ^ 32"
  shows "\<exists>T' encoding. encode T name = Inr (T', encoding)"
  using toSymbols_returns [OF assms] by (auto simp: encode_def)

text \<open>
  Claim C1.  In every reachable table state and for every string \<open>name\<close>, also the
  empty one: when \<open>encode\<close> returns an encoding, \<open>decode\<close> of that encoding against the
  table after the call returns exactly \<open>name\<close>; the same holds for the length-prefixed
  bytes of \<open>StatNameStorage\<close> read back with \<open>toString\<close>.  \<open>encode\<close> does return unless
  \<open>monotonic_counter\<close> would wrap, which is the fatal condition of \<open>newSymbol\<close>.
\<close>

theorem encode_decode_round_trip:
  assumes "run_ops SymbolTable_init ops = Inr T"
  shows "(\<forall>T' encoding. encode T name = Inr (T', encoding) \<longrightarrow>
            decode T' encoding (length encoding) = Inr name)
       \<and> (\<forall>T' stat_name. StatNameStorage name T = Inr (T', stat_name) \<longrightarrow>
            toString stat_name T' = Inr name)
       \<and> (unat (monotonic_counter T) + length (StrSplit name CHR ''.'') < 2 ^ 32 \<longrightarrow>
            (\<exists>T' encoding. encode T name = Inr (T', encoding)))"
proof -
  from reachable_inv [OF assms] have inv: "table_inv T" .
  have a: "decode T' encoding (length encoding) = Inr name"
    if "encode T name = Inr (T', encoding)" for T' encoding
    using inv that by (rule encode_decode)
  have b: "toString stat_name T' = Inr name"
    if "StatNameStorage name T = Inr (T', stat_name)" for T' stat_name
  proof -
    from that obtain encoding where e: "encode T name = Inr (T', encoding)"
      and m: "moveToStorage encoding = Inr stat_name"
      by (auto simp: StatNameStorage_def split: sum.splits)
    from dataSize_moveToStorage [OF m] a [OF e] show ?thesis
      by (simp add: toString_def)
  qed
  from a b encode_returns [OF inv] show ?thesis
    by blast
qed

theorem encode_decode_round_trip_witness:
  "run_ops SymbolTable_init [] = Inr SymbolTable_init
   \<and> encode SymbolTable_init ''cluster.x.rq_total'' =
       Inr (\<lparr>next_symbol = 3, monotonic_counter = 3,
             encode_map = fmupd ''rq_total'' \<lparr>symbol = 2, ref_count = 1\<rparr>
                           (fmupd ''x'' \<lparr>symbol = 1, ref_count = 1\<rparr>
                             (fmupd ''cluster'' \<lparr>symbol = 0, ref_count = 1\<rparr> fmempty)),
             decode_map = fmupd 2 ''rq_total'' (fmupd 1 ''x'' (fmupd 0 ''cluster'' fmempty)),
             pool = []\<rparr>, [0, 1, 2])
   \<and> decode \<lparr>next_symbol = 3, monotonic_counter = 3,
             encode_map = fmupd ''rq_total'' \<lparr>symbol = 2, ref_count = 1\<rparr>
                           (fmupd ''x'' \<lparr>symbol = 1, ref_count = 1\<rparr>
                             (fmupd ''cluster'' \<lparr>symbol = 0, ref_count = 1\<rparr> fmempty)),
             decode_map = fmupd 2 ''rq_total'' (fmupd 1 ''x'' (fmupd 0 ''cluster'' fmempty)),
             pool = []\<rparr> [0, 1, 2] 3 = Inr ''cluster.x.rq_total''"
proof -
  have h: "run_ops SymbolTable_init [] = Inr SymbolTable_init"
    by simp
  have e: "encode SymbolTable_init ''cluster.x.rq_total'' =
       Inr (\<lparr>next_symbol = 3, monotonic_counter = 3,
             encode_map = fmupd ''rq_total'' \<lparr>symbol = 2, ref_count = 1\<rparr>
                           (fmupd ''x'' \<lparr>symbol = 1, ref_count = 1\<rparr>
                             (fmupd ''cluster'' \<lparr>symbol = 0, ref_count = 1\<rparr> fmempty)),
             decode_map = fmupd 2 ''rq_total'' (fmupd 1 ''x'' (fmupd 0 ''cluster'' fmempty)),
             pool = []\<rparr>, [0, 1, 2])"
    by (simp add: model_defs)
  from encode_decode_round_trip [OF h, of "''cluster.x.rq_total''"] e
  have "decode \<lparr>next_symbol = 3, monotonic_counter = 3,
             encode_map = fmupd ''rq_total'' \<lparr>symbol = 2, ref_count = 1\<rparr>
                           (fmupd ''x'' \<lparr>symbol = 1, ref_count = 1\<rparr>
                             (fmupd ''cluster'' \<lparr>symbol = 0, ref_count = 1\<rparr> fmempty)),
             decode_map = fmupd 2 ''rq_total'' (fmupd 1 ''x'' (fmupd 0 ''cluster'' fmempty)),
             pool = []\<rparr> [0, 1, 2] (length [0, 1, 2 :: byte]) = Inr ''cluster.x.rq_total''"
    by blast
  with h e show ?thesis
    by (simp add: numeral_3_eq_3)
qed

section \<open>Equal names have equal bytes\<close>

lemma StrJoin_name_tokens: "StrJoin (name_tokens name) ''.'' = name"
  by (simp add: name_tokens_def StrJoin_StrSplit)

lemma name_tokens_inj:
  assumes "name_tokens s = name_tokens t"
  shows "s = t"
proof -
  have "s = StrJoin (name_tokens s) ''.''"
    by (simp only: StrJoin_name_tokens)
  also have "\<dots> = StrJoin (name_tokens t) ''.''"
    by (simp only: assms)
  also have "\<dots> = t"
    by (simp only: StrJoin_name_tokens)
  finally show ?thesis .
qed

lemma encode_symbols:
  assumes "encode T name = Inr (T', encoding)"
  shows "\<exists>symbols. toSymbols T (name_tokens name) = Inr (T', symbols)
           \<and> encoding = addSymbols symbols []"
  using assms by (auto simp: encode_def name_tokens_def split: if_splits sum.splits)

lemma addSymbols_inj:
  assumes "addSymbols xs [] = addSymbols ys []"
  shows "xs = ys"
proof -
  have "Inr xs = decodeSymbols (addSymbols xs []) (length (addSymbols xs []))"
    by (simp only: decodeSymbols_addSymbols)
  also have "\<dots> = decodeSymbols (addSymbols ys []) (length (addSymbols ys []))"
    by (simp only: assms)
  also have "\<dots> = Inr ys"
    by (simp only: decodeSymbols_addSymbols)
  finally show ?thesis
    by (simp only: sum.inject)
qed

lemma fromSymbols_mono:
  assumes "\<And>i x. fmlookup (decode_map T) i = Some x \<Longrightarrow> fmlookup (decode_map T') i = Some x"
  shows "fromSymbols T symbols = Inr ts \<Longrightarrow> fromSymbols T' symbols = Inr ts"
proof (induction symbols arbitrary: ts)
  case Nil
  then show ?case by simp
next
  case (Cons s symbols)
  from Cons.prems obtain str ts' where
    a: "fmlookup (decode_map T) s = Some str" and b: "fromSymbols T symbols = Inr ts'"
    and c: "ts = str # ts'"
    by (auto simp: fromSymbol_def split: option.splits sum.splits)
  from assms [OF a] Cons.IH [OF b] c show ?case
    by (simp add: fromSymbol_def)
qed

lemma bimap_decode_inj:
  assumes "bimap T" and "fmlookup (decode_map T) i = Some x" and "fmlookup (decode_map T) j = Some x"
  shows "i = j"
  using bimapD2 [OF assms(1,2)] bimapD2 [OF assms(1,3)] by auto

lemma fromSymbols_inj:
  assumes "bimap T"
  shows "fromSymbols T xs = Inr ts \<Longrightarrow> fromSymbols T ys = Inr ts \<Longrightarrow> xs = ys"
proof (induction xs arbitrary: ys ts)
  case Nil
  then show ?case
    by (cases ys) (auto split: sum.splits)
next
  case (Cons x xs)
  from Cons.prems(1) obtain str ts' where
    a: "fmlookup (decode_map T) x = Some str" and b: "fromSymbols T xs = Inr ts'"
    and c: "ts = str # ts'"
    by (auto simp: fromSymbol_def split: option.splits sum.splits)
  from Cons.prems(2) c obtain y ys' where
    d: "ys = y # ys'" and e: "fmlookup (decode_map T) y = Some str"
    and f: "fromSymbols T ys' = Inr ts'"
    by (cases ys) (auto simp: fromSymbol_def split: option.splits sum.splits)
  from bimap_decode_inj [OF assms a e] Cons.IH [OF b f] d show ?case
    by simp
qed

lemma StatName_eq_storage:
  assumes "moveToStorage e1 = Inr p1" and "moveToStorage e2 = Inr p2"
  shows "StatName_eq p1 p2 = Inr (e1 = e2)"
  using dataSize_moveToStorage [OF assms(1)] dataSize_moveToStorage [OF assms(2)]
  by (auto simp: StatName_eq_def)

lemma StatNameStorage_cases:
  assumes "StatNameStorage name T = Inr (T', stat_name)"
  obtains encoding where "encode T name = Inr (T', encoding)"
    and "moveToStorage encoding = Inr stat_name"
  using assms by (auto simp: StatNameStorage_def split: sum.splits)

lemma StatNameStorage_returns:
  assumes "encode T name = Inr (T', encoding)" and "length encoding < StatNameMaxSize"
  shows "\<exists>stat_name. StatNameStorage name T = Inr (T', stat_name)"
  using assms moveToStorage_returns [of encoding] by (simp add: StatNameStorage_def)

text \<open>
  Claim C7.  When two strings are encoded one after the other against the same table
  (starting in any reachable state) and stored as packed names, \<open>operator==\<close> on the two
  packed names returns true exactly when the two strings are equal.
\<close>

theorem encoding_injective:
  assumes "run_ops SymbolTable_init ops = Inr T"
    and "StatNameStorage s1 T = Inr (T1, p1)"
    and "StatNameStorage s2 T1 = Inr (T2, p2)"
  shows "StatName_eq p1 p2 = Inr (s1 = s2)"
proof -
  from reachable_inv [OF assms(1)] have inv: "table_inv T" .
  from assms(2) obtain e1 where e1: "encode T s1 = Inr (T1, e1)"
    and m1: "moveToStorage e1 = Inr p1"
    by (rule StatNameStorage_cases)
  from assms(3) obtain e2 where e2: "encode T1 s2 = Inr (T2, e2)"
    and m2: "moveToStorage e2 = Inr p2"
    by (rule StatNameStorage_cases)
  from encode_symbols [OF e1] obtain xs where
    t1: "toSymbols T (name_tokens s1) = Inr (T1, xs)" and x: "e1 = addSymbols xs []"
    by blast
  from encode_symbols [OF e2] obtain ys where
    t2: "toSymbols T1 (name_tokens s2) = Inr (T2, ys)" and y: "e2 = addSymbols ys []"
    by blast
  from encode_inv [OF inv e1] have inv1: "table_inv T1" .
  from encode_inv [OF inv1 e2] have inv2: "table_inv T2" .
  from toSymbols_fromSymbols [OF inv t1] have "fromSymbols T1 xs = Inr (name_tokens s1)" .
  then have f1: "fromSymbols T2 xs = Inr (name_tokens s1)"
    using toSymbols_decode_mono [OF t2] by (rule fromSymbols_mono [rotated])
  from toSymbols_fromSymbols [OF inv1 t2] have f2: "fromSymbols T2 ys = Inr (name_tokens s2)" .
  from inv2 have b2: "bimap T2"
    by (simp add: table_inv_def)
  have "e1 = e2 \<longleftrightarrow> s1 = s2"
  proof
    assume "e1 = e2"
    then have "xs = ys"
      unfolding x y by (rule addSymbols_inj)
    with f1 f2 have "name_tokens s1 = name_tokens s2"
      by (simp only: sum.inject)
    then show "s1 = s2"
      by (rule name_tokens_inj)
  next
    assume "s1 = s2"
    with f2 have "fromSymbols T2 ys = Inr (name_tokens s1)"
      by (simp only:)
    with f1 have "xs = ys"
      by (rule fromSymbols_inj [OF b2])
    then show "e1 = e2"
      by (simp only: x y)
  qed
  with StatName_eq_storage [OF m1 m2] show ?thesis
    by (simp only:)
qed

theorem encoding_injective_witness:
  "run_ops SymbolTable_init [] = Inr SymbolTable_init
   \<and> StatNameStorage ''a'' SymbolTable_init =
       Inr (\<lparr>next_symbol = 1, monotonic_counter = 1,
             encode_map = fmupd ''a'' \<lparr>symbol = 0, ref_count = 1\<rparr> fmempty,
             decode_map = fmupd 0 ''a'' fmempty, pool = []\<rparr>, [1, 0, 0])
   \<and> StatNameStorage ''b'' \<lparr>next_symbol = 1, monotonic_counter = 1,
             encode_map = fmupd ''a'' \<lparr>symbol = 0, ref_count = 1\<rparr> fmempty,
             decode_map = fmupd 0 ''a'' fmempty, pool = []\<rparr> =
       Inr (\<lparr>next_symbol = 2, monotonic_counter = 2,
             encode_map = fmupd ''b'' \<lparr>symbol = 1, ref_count = 1\<rparr>
                            (fmupd ''a'' \<lparr>symbol = 0, ref_count = 1\<rparr> fmempty),
             decode_map = fmupd 1 ''b'' (fmupd 0 ''a'' fmempty), pool = []\<rparr>, [1, 0, 1])
   \<and> StatName_eq [1, 0, 0] [1, 0, 1] = Inr False
   \<and> StatNameStorage ''a'' \<lparr>next_symbol = 1, monotonic_counter = 1,
             encode_map = fmupd ''a'' \<lparr>symbol = 0, ref_count = 1\<rparr> fmempty,
             decode_map = fmupd 0 ''a'' fmempty, pool = []\<rparr> =
       Inr (\<lparr>next_symbol = 1, monotonic_counter = 1,
             encode_map = fmupd ''a'' \<lparr>symbol = 0, ref_count = 2\<rparr> fmempty,
             decode_map = fmupd 0 ''a'' fmempty, pool = []\<rparr>, [1, 0, 0])
   \<and> StatName_eq [1, 0, 0] [1, 0, 0] = Inr True"
proof -
  have h: "run_ops SymbolTable_init [] = Inr SymbolTable_init"
    by simp
  have a: "StatNameStorage ''a'' SymbolTable_init =
       Inr (\<lparr>next_symbol = 1, monotonic_counter = 1,
             encode_map = fmupd ''a'' \<lparr>symbol = 0, ref_count = 1\<rparr> fmempty,
             decode_map = fmupd 0 ''a'' fmempty, pool = []\<rparr>, [1, 0, 0])"
    by (simp add: model_defs)
  have b: "StatNameStorage ''b'' \<lparr>next_symbol = 1, monotonic_counter = 1,
             encode_map = fmupd ''a'' \<lparr>symbol = 0, ref_count = 1\<rparr> fmempty,
             decode_map = fmupd 0 ''a'' fmempty, pool = []\<rparr> =
       Inr (\<lparr>next_symbol = 2, monotonic_counter = 2,
             encode_map = fmupd ''b'' \<lparr>symbol = 1, ref_count = 1\<rparr>
                            (fmupd ''a'' \<lparr>symbol = 0, ref_count = 1\<rparr> fmempty),
             decode_map = fmupd 1 ''b'' (fmupd 0 ''a'' fmempty), pool = []\<rparr>, [1, 0, 1])"
    by (simp add: model_defs)
  have c: "StatNameStorage ''a'' \<lparr>next_symbol = 1, monotonic_counter = 1,
             encode_map = fmupd ''a'' \<lparr>symbol = 0, ref_count = 1\<rparr> fmempty,
             decode_map = fmupd 0 ''a'' fmempty, pool = []\<rparr> =
       Inr (\<lparr>next_symbol = 1, monotonic_counter = 1,
             encode_map = fmupd ''a'' \<lparr>symbol = 0, ref_count = 2\<rparr> fmempty,
             decode_map = fmupd 0 ''a'' fmempty, pool = []\<rparr>, [1, 0, 0])"
    by (simp add: model_defs)
  from encoding_injective [OF h a b] encoding_injective [OF h a c] h a b c show ?thesis
    by simp
qed

section \<open>Joining and ordering\<close>

lemma addSymbols_append:
  "addSymbols (xs @ ys) [] = addSymbols xs [] @ addSymbols ys []"
  by (simp add: addSymbols_spec)

lemma fromSymbols_append:
  "fromSymbols T xs = Inr ts \<Longrightarrow> fromSymbols T ys = Inr us \<Longrightarrow>
   fromSymbols T (xs @ ys) = Inr (ts @ us)"
proof (induction xs arbitrary: ts)
  case Nil
  then show ?case by simp
next
  case (Cons x xs)
  from Cons.prems(1) obtain str ts' where
    a: "fromSymbol T x = Inr str" and b: "fromSymbols T xs = Inr ts'" and c: "ts = str # ts'"
    by (auto split: sum.splits)
  from Cons.IH [OF b Cons.prems(2)] a c show ?case
    by simp
qed

lemma fromSymbols_length: "fromSymbols T xs = Inr ts \<Longrightarrow> length ts = length xs"
proof (induction xs arbitrary: ts)
  case Nil
  then show ?case by simp
next
  case (Cons x xs)
  from Cons.prems obtain str ts' where
    b: "fromSymbols T xs = Inr ts'" and c: "ts = str # ts'"
    by (auto split: sum.splits)
  from Cons.IH [OF b] c show ?case
    by simp
qed

lemma fromSymbols_nth:
  "fromSymbols T xs = Inr ts \<Longrightarrow> d < length xs \<Longrightarrow> fromSymbol T (xs ! d) = Inr (ts ! d)"
proof (induction xs arbitrary: ts d)
  case Nil
  then show ?case by simp
next
  case (Cons x xs)
  from Cons.prems(1) obtain str ts' where
    a: "fromSymbol T x = Inr str" and b: "fromSymbols T xs = Inr ts'" and c: "ts = str # ts'"
    by (auto split: sum.splits)
  show ?case
  proof (cases d)
    case 0
    with a c show ?thesis by simp
  next
    case (Suc d')
    with Cons.prems(2) have "d' < length xs" by simp
    from Cons.IH [OF b this] c Suc show ?thesis by simp
  qed
qed

lemma toString_storage:
  assumes "moveToStorage (addSymbols symbols []) = Inr stat_name"
  shows "toString stat_name T = decodeSymbolVec T symbols"
  using dataSize_moveToStorage [OF assms] by (simp add: toString_def decode_addSymbols)

lemma StatNameJoiner_storage:
  assumes "moveToStorage ea = Inr a" and "moveToStorage eb = Inr b"
  shows "StatNameJoiner a b = moveToStorage (ea @ eb)"
  using dataSize_moveToStorage [OF assms(1)] dataSize_moveToStorage [OF assms(2)]
  by (simp add: StatNameJoiner_def moveToStorage_def split: sum.splits)

text \<open>
  Claim C9.  Let \<open>a\<close> and \<open>b\<close> be packed names of non-empty id sequences \<open>av\<close> and \<open>bv\<close>
  whose ids the table resolves (to the tokens \<open>ta\<close> and \<open>tb\<close>).  Then the name that
  \<open>StatNameJoiner a b\<close> builds decodes against the table to the decoding of \<open>a\<close>, a dot,
  and the decoding of \<open>b\<close>.  The joiner is a function of the two byte arrays alone: it is
  given no table, so the table used to decode the join is the table as it was before,
  with both maps, each \<open>ref_count\<close>, the free list and the counters untouched.  The join
  is built whenever the two payloads together are shorter than \<open>StatNameMaxSize\<close>.
\<close>

theorem join_decodes:
  assumes "moveToStorage (addSymbols av []) = Inr a"
    and "moveToStorage (addSymbols bv []) = Inr b"
    and "av \<noteq> []" and "bv \<noteq> []"
    and "fromSymbols T av = Inr ta" and "fromSymbols T bv = Inr tb"
  shows "toString a T = Inr (StrJoin ta ''.'')
       \<and> toString b T = Inr (StrJoin tb ''.'')
       \<and> (\<forall>j. StatNameJoiner a b = Inr j \<longrightarrow>
            toString j T = Inr (StrJoin ta ''.'' @ ''.'' @ StrJoin tb ''.''))
       \<and> (length (addSymbols av []) + length (addSymbols bv []) < StatNameMaxSize \<longrightarrow>
            (\<exists>j. StatNameJoiner a b = Inr j))"
proof -
  have a: "toString a T = Inr (StrJoin ta ''.'')"
    using assms(5) by (simp add: toString_storage [OF assms(1)] decodeSymbolVec_def)
  have b: "toString b T = Inr (StrJoin tb ''.'')"
    using assms(6) by (simp add: toString_storage [OF assms(2)] decodeSymbolVec_def)
  have j: "StatNameJoiner a b = moveToStorage (addSymbols (av @ bv) [])"
    unfolding addSymbols_append using assms(1,2) by (rule StatNameJoiner_storage)
  from assms(3,5) assms(4,6) have ne: "ta \<noteq> []" "tb \<noteq> []"
    by (auto dest: fromSymbols_length)
  have c: "toString j T = Inr (StrJoin ta ''.'' @ ''.'' @ StrJoin tb ''.'')"
    if "StatNameJoiner a b = Inr j" for j
  proof -
    from that j have "moveToStorage (addSymbols (av @ bv) []) = Inr j"
      by simp
    from toString_storage [OF this] fromSymbols_append [OF assms(5,6)] ne show ?thesis
      by (simp add: decodeSymbolVec_def StrJoin_append)
  qed
  have d: "\<exists>j. StatNameJoiner a b = Inr j"
    if "length (addSymbols av []) + length (addSymbols bv []) < StatNameMaxSize"
    unfolding j using that moveToStorage_returns [of "addSymbols (av @ bv) []"]
    by (simp add: addSymbols_append)
  from a b c d show ?thesis
    by blast
qed

theorem join_decodes_witness:
  "moveToStorage (addSymbols [0, 1] []) = Inr [2, 0, 0, 1]
   \<and> moveToStorage (addSymbols [2] []) = Inr [1, 0, 2]
   \<and> fromSymbols \<lparr>next_symbol = 3, monotonic_counter = 3,
         encode_map = fmupd ''rq_200'' \<lparr>symbol = 2, ref_count = 1\<rparr>
                        (fmupd ''downstream'' \<lparr>symbol = 1, ref_count = 1\<rparr>
                          (fmupd ''http'' \<lparr>symbol = 0, ref_count = 1\<rparr> fmempty)),
         decode_map = fmupd 2 ''rq_200'' (fmupd 1 ''downstream'' (fmupd 0 ''http'' fmempty)),
         pool = []\<rparr> [0, 1] = Inr [''http'', ''downstream'']
   \<and> fromSymbols \<lparr>next_symbol = 3, monotonic_counter = 3,
         encode_map = fmupd ''rq_200'' \<lparr>symbol = 2, ref_count = 1\<rparr>
                        (fmupd ''downstream'' \<lparr>symbol = 1, ref_count = 1\<rparr>
                          (fmupd ''http'' \<lparr>symbol = 0, ref_count = 1\<rparr> fmempty)),
         decode_map = fmupd 2 ''rq_200'' (fmupd 1 ''downstream'' (fmupd 0 ''http'' fmempty)),
         pool = []\<rparr> [2] = Inr [''rq_200'']
   \<and> StatNameJoiner [2, 0, 0, 1] [1, 0, 2] = Inr [3, 0, 0, 1, 2]
   \<and> toString [3, 0, 0, 1, 2] \<lparr>next_symbol = 3, monotonic_counter = 3,
         encode_map = fmupd ''rq_200'' \<lparr>symbol = 2, ref_count = 1\<rparr>
                        (fmupd ''downstream'' \<lparr>symbol = 1, ref_count = 1\<rparr>
                          (fmupd ''http'' \<lparr>symbol = 0, ref_count = 1\<rparr> fmempty)),
         decode_map = fmupd 2 ''rq_200'' (fmupd 1 ''downstream'' (fmupd 0 ''http'' fmempty)),
         pool = []\<rparr> = Inr ''http.downstream.rq_200''"
  (is "?A \<and> ?B \<and> ?C \<and> ?D \<and> ?E \<and> ?F")
proof -
  have a: ?A
    by (simp add: model_defs)
  have b: ?B
    by (simp add: model_defs)
  have c: ?C
    by (simp add: model_defs)
  have d: ?D
    by (simp add: model_defs)
  have e: ?E
    by (simp add: StatNameJoiner_def model_defs)
  have n1: "[0, 1 :: Symbol] \<noteq> []" and n2: "[2 :: Symbol] \<noteq> []"
    by simp_all
  from join_decodes [OF a b n1 n2 c d] e have ?F
    by simp
  with a b c d e show ?thesis
    by blast
qed

lemma lessThanLoop_equal:
  "\<forall>k. i \<le> k \<and> k < n \<longrightarrow> av ! k = bv ! k \<Longrightarrow>
   lessThanLoop T av bv i n = Inr (length av < length bv)"
proof (induction T av bv i n rule: lessThanLoop.induct)
  case (1 T av bv i n)
  show ?case
  proof (cases "i < n")
    case True
    with "1.prems" have e: "av ! i = bv ! i"
      by simp
    from "1.prems" have "\<forall>k. i + 1 \<le> k \<and> k < n \<longrightarrow> av ! k = bv ! k"
      by simp
    with "1.IH" True e have "lessThanLoop T av bv (i + 1) n = Inr (length av < length bv)"
      by simp
    with True e show ?thesis
      by (simp add: lessThanLoop.simps [of T av bv i n])
  next
    case False
    then show ?thesis
      by (simp add: lessThanLoop.simps [of T av bv i n])
  qed
qed

lemma lessThanLoop_differ:
  "i \<le> d \<Longrightarrow> d < n \<Longrightarrow> av ! d \<noteq> bv ! d \<Longrightarrow> \<forall>k. i \<le> k \<and> k < d \<longrightarrow> av ! k = bv ! k \<Longrightarrow>
   fromSymbol T (av ! d) = Inr sa \<Longrightarrow> fromSymbol T (bv ! d) = Inr sb \<Longrightarrow>
   lessThanLoop T av bv i n = Inr (sa < sb)"
proof (induction T av bv i n rule: lessThanLoop.induct)
  case (1 T av bv i n)
  from "1.prems"(1,2) have lt: "i < n"
    by simp
  show ?case
  proof (cases "i = d")
    case True
    with lt "1.prems"(3,5,6) show ?thesis
      by (simp add: lessThanLoop.simps [of T av bv d n])
  next
    case False
    with "1.prems"(1) have id: "i + 1 \<le> d" and "i < d"
      by simp_all
    with "1.prems"(4) have e: "av ! i = bv ! i"
      by simp
    from "1.prems"(4) have "\<forall>k. i + 1 \<le> k \<and> k < d \<longrightarrow> av ! k = bv ! k"
      by simp
    from "1.IH" [OF lt _ id "1.prems"(2,3) this "1.prems"(5,6)] e
    have "lessThanLoop T av bv (i + 1) n = Inr (sa < sb)"
      by simp
    with lt e show ?thesis
      by (simp add: lessThanLoop.simps [of T av bv i n])
  qed
qed

text \<open>
  Claim C10.  Let \<open>a\<close> and \<open>b\<close> be packed names that decode to the id sequences \<open>av\<close> and
  \<open>bv\<close>, whose ids the table resolves to the tokens \<open>ta\<close> and \<open>tb\<close>.  At the first
  position \<open>d\<close> of both where the ids differ, \<open>lessThan\<close> returns the string comparison
  of the two tokens there; when the ids agree at every position of both, it returns
  whether \<open>av\<close> is strictly shorter than \<open>bv\<close>; and \<open>lessThan\<close> of a name with itself is
  false.
\<close>

theorem lessThan_tokenwise:
  assumes "dataSize a = Inr asz" and "decodeSymbols (data a) asz = Inr av"
    and "dataSize b = Inr bsz" and "decodeSymbols (data b) bsz = Inr bv"
    and "fromSymbols T av = Inr ta" and "fromSymbols T bv = Inr tb"
  shows "(\<forall>d. d < min (length av) (length bv) \<and> av ! d \<noteq> bv ! d \<and> (\<forall>k < d. av ! k = bv ! k)
            \<longrightarrow> lessThan T a b = Inr (ta ! d < tb ! d))
       \<and> ((\<forall>k < min (length av) (length bv). av ! k = bv ! k)
            \<longrightarrow> lessThan T a b = Inr (length av < length bv))
       \<and> lessThan T a a = Inr False"
proof -
  have l: "lessThan T a b = lessThanLoop T av bv 0 (min (length av) (length bv))"
    using assms(1-4) by (simp add: lessThan_def)
  have x: "lessThan T a b = Inr (ta ! d < tb ! d)"
    if "d < min (length av) (length bv)" and "av ! d \<noteq> bv ! d" and "\<forall>k < d. av ! k = bv ! k" for d
  proof -
    from that(1) have "d < length av" and "d < length bv"
      by simp_all
    from fromSymbols_nth [OF assms(5) this(1)] fromSymbols_nth [OF assms(6) this(2)]
    show ?thesis
      unfolding l using that by (intro lessThanLoop_differ [of 0 d]) simp_all
  qed
  have y: "lessThan T a b = Inr (length av < length bv)"
    if "\<forall>k < min (length av) (length bv). av ! k = bv ! k"
    unfolding l using that by (intro lessThanLoop_equal) simp
  have "lessThan T a a = lessThanLoop T av av 0 (min (length av) (length av))"
    using assms(1,2) by (simp add: lessThan_def)
  also have "\<dots> = Inr (length av < length av)"
    by (intro lessThanLoop_equal) simp
  finally have z: "lessThan T a a = Inr False"
    by simp
  from x y z show ?thesis
    by blast
qed

theorem lessThan_tokenwise_witness:
  "dataSize [2, 0, 0, 1] = Inr 2 \<and> decodeSymbols (data [2, 0, 0, 1]) 2 = Inr [0, 1]
   \<and> dataSize [2, 0, 0, 2] = Inr 2 \<and> decodeSymbols (data [2, 0, 0, 2]) 2 = Inr [0, 2]
   \<and> fromSymbols \<lparr>next_symbol = 3, monotonic_counter = 3,
         encode_map = fmupd ''c'' \<lparr>symbol = 2, ref_count = 1\<rparr>
                        (fmupd ''b'' \<lparr>symbol = 1, ref_count = 1\<rparr>
                          (fmupd ''a'' \<lparr>symbol = 0, ref_count = 2\<rparr> fmempty)),
         decode_map = fmupd 2 ''c'' (fmupd 1 ''b'' (fmupd 0 ''a'' fmempty)),
         pool = []\<rparr> [0, 1] = Inr [''a'', ''b'']
   \<and> fromSymbols \<lparr>next_symbol = 3, monotonic_counter = 3,
         encode_map = fmupd ''c'' \<lparr>symbol = 2, ref_count = 1\<rparr>
                        (fmupd ''b'' \<lparr>symbol = 1, ref_count = 1\<rparr>
                          (fmupd ''a'' \<lparr>symbol = 0, ref_count = 2\<rparr> fmempty)),
         decode_map = fmupd 2 ''c'' (fmupd 1 ''b'' (fmupd 0 ''a'' fmempty)),
         pool = []\<rparr> [0, 2] = Inr [''a'', ''c'']
   \<and> lessThan \<lparr>next_symbol = 3, monotonic_counter = 3,
         encode_map = fmupd ''c'' \<lparr>symbol = 2, ref_count = 1\<rparr>
                        (fmupd ''b'' \<lparr>symbol = 1, ref_count = 1\<rparr>
                          (fmupd ''a'' \<lparr>symbol = 0, ref_count = 2\<rparr> fmempty)),
         decode_map = fmupd 2 ''c'' (fmupd 1 ''b'' (fmupd 0 ''a'' fmempty)),
         pool = []\<rparr> [2, 0, 0, 1] [2, 0, 0, 2] = Inr True
   \<and> lessThan \<lparr>next_symbol = 3, monotonic_counter = 3,
         encode_map = fmupd ''c'' \<lparr>symbol = 2, ref_count = 1\<rparr>
                        (fmupd ''b'' \<lparr>symbol = 1, ref_count = 1\<rparr>
                          (fmupd ''a'' \<lparr>symbol = 0, ref_count = 2\<rparr> fmempty)),
         decode_map = fmupd 2 ''c'' (fmupd 1 ''b'' (fmupd 0 ''a'' fmempty)),
         pool = []\<rparr> [2, 0, 0, 1] [2, 0, 0, 1] = Inr False"
  (is "?A \<and> ?B \<and> ?C \<and> ?D \<and> ?E \<and> ?F \<and> ?G \<and> ?H")
proof -
  have a: ?A and b: ?B and c: ?C and d: ?D and e: ?E and f: ?F
    by (simp_all add: model_defs)
  note t = lessThan_tokenwise [OF a b c d e f]
  have p: "(1 :: nat) < min (length [0, 1 :: Symbol]) (length [0, 2 :: Symbol])
           \<and> [0, 1 :: Symbol] ! 1 \<noteq> [0, 2] ! 1 \<and> (\<forall>k < 1. [0, 1 :: Symbol] ! k = [0, 2] ! k)"
    by simp
  from t p have g: ?G
    by fastforce
  from t have h: ?H
    by blast
  from a b c d e f g h show ?thesis
    by blast
qed

section \<open>Encoding a name and freeing it again\<close>

lemma toSymbol_ref_count:
  assumes "toSymbol T sv = Inr (T', s)"
  shows "ref_count_of T' t = ref_count_of T t + (if t = sv then 1 else 0)
       \<and> fmlookup (encode_map T') sv \<noteq> None
       \<and> (t \<noteq> sv \<longrightarrow> fmlookup (encode_map T') t = fmlookup (encode_map T) t)"
  using assms
proof (cases rule: toSymbol_cases)
  case fresh
  from newSymbol_maps [OF fresh(4)] fresh(1) show ?thesis
    by (auto simp: ref_count_of_def)
next
  case (known shared)
  then show ?thesis
    by (auto simp: ref_count_of_def)
qed

lemma toSymbols_ref_count:
  "toSymbols T tokens = Inr (T1, symbols) \<Longrightarrow>
   ref_count_of T1 t = ref_count_of T t + word_of_nat (count_list tokens t)
   \<and> (t \<in> set tokens \<or> fmlookup (encode_map T) t \<noteq> None \<longrightarrow> fmlookup (encode_map T1) t \<noteq> None)
   \<and> (t \<notin> set tokens \<longrightarrow> fmlookup (encode_map T1) t = fmlookup (encode_map T) t)"
proof (induction tokens arbitrary: T symbols)
  case Nil
  then show ?case by simp
next
  case (Cons token tokens)
  from Cons.prems obtain T' s symbols' where
    a: "toSymbol T token = Inr (T', s)" and b: "toSymbols T' tokens = Inr (T1, symbols')"
    by (auto split: sum.splits)
  note ih = Cons.IH [OF b]
  note st = toSymbol_ref_count [OF a, of t]
  show ?case
  proof (cases "t = token")
    case True
    with ih st show ?thesis
      by simp
  next
    case False
    with ih st show ?thesis
      by simp
  qed
qed

lemma encode_token_spec_not_Nil: "encode_token_spec s \<noteq> []"
  by (simp add: encode_token_spec.simps [of s])

lemma length_addSymbols: "length symbols \<le> length (addSymbols symbols [])"
proof -
  have "length symbols \<le> length (concat (map encode_token_spec symbols))"
  proof (induction symbols)
    case Nil
    then show ?case by simp
  next
    case (Cons s symbols)
    have "1 \<le> length (encode_token_spec s)"
      using encode_token_spec_not_Nil [of s] by (cases "encode_token_spec s") simp_all
    with Cons show ?case
      by simp
  qed
  then show ?thesis
    by (simp add: addSymbols_spec)
qed

lemma fromSymbols_cong:
  "decode_map T' = decode_map T \<Longrightarrow> fromSymbols T' symbols = fromSymbols T symbols"
  by (induction symbols) (auto simp: fromSymbol_def split: option.splits)

lemma fromSymbols_member:
  "fromSymbols T symbols = Inr tokens \<Longrightarrow> s \<in> set symbols \<Longrightarrow>
   \<exists>t \<in> set tokens. fmlookup (decode_map T) s = Some t"
proof (induction symbols arbitrary: tokens)
  case Nil
  then show ?case by simp
next
  case (Cons x symbols)
  from Cons.prems(1) obtain str ts' where
    a: "fmlookup (decode_map T) x = Some str" and b: "fromSymbols T symbols = Inr ts'"
    and c: "tokens = str # ts'"
    by (auto simp: fromSymbol_def split: option.splits sum.splits)
  show ?case
  proof (cases "s = x")
    case True
    with a c show ?thesis by simp
  next
    case False
    with Cons.prems(2) have "s \<in> set symbols" by simp
    from Cons.IH [OF b this] c show ?thesis by auto
  qed
qed

lemma fromSymbols_drop:
  assumes "fromSymbols T symbols = Inr tokens" and "s \<notin> set symbols"
    and "decode_map T' = fmdrop s (decode_map T)"
  shows "fromSymbols T' symbols = Inr tokens"
  using assms(1,2)
proof (induction symbols arbitrary: tokens)
  case Nil
  then show ?case by simp
next
  case (Cons x symbols)
  from Cons.prems(1) obtain str ts' where
    a: "fmlookup (decode_map T) x = Some str" and b: "fromSymbols T symbols = Inr ts'"
    and c: "tokens = str # ts'"
    by (auto simp: fromSymbol_def split: option.splits sum.splits)
  from Cons.prems(2) have "s \<noteq> x" and "s \<notin> set symbols"
    by simp_all
  with Cons.IH [OF b] a c assms(3) show ?case
    by (simp add: fromSymbol_def)
qed

lemma freeLoop_erases:
  "bimap T \<Longrightarrow> fromSymbols T symbols = Inr tokens \<Longrightarrow>
   \<forall>t \<in> set tokens. \<exists>shared. fmlookup (encode_map T) t = Some shared
        \<and> unat (ref_count shared) = count_list tokens t \<Longrightarrow>
   \<exists>T2. freeLoop T symbols = Inr T2
     \<and> (\<forall>u. fmlookup (encode_map T2) u
              = (if u \<in> set tokens then None else fmlookup (encode_map T) u))"
proof (induction symbols arbitrary: T tokens)
  case Nil
  then show ?case by simp
next
  case (Cons s symbols)
  from Cons.prems(2) obtain t ts' where
    d: "fmlookup (decode_map T) s = Some t" and f: "fromSymbols T symbols = Inr ts'"
    and tk: "tokens = t # ts'"
    by (auto simp: fromSymbol_def split: option.splits sum.splits)
  from Cons.prems(3) tk obtain shared where
    e: "fmlookup (encode_map T) t = Some shared"
    and rc: "unat (ref_count shared) = count_list ts' t + 1"
    by auto
  show ?case
  proof (cases "count_list ts' t = 0")
    case True
    then have notin: "t \<notin> set ts'"
      by (simp add: count_list_0_iff)
    from rc True have "unat (ref_count shared) = 1"
      by simp
    then have "unat (ref_count shared) = unat (1 :: 32 word)"
      by simp
    then have one: "ref_count shared - 1 = 0"
      by (simp only: word_unat_eq_iff [symmetric]) simp
    let ?X = "T\<lparr>decode_map := fmdrop s (decode_map T),
                 encode_map := fmdrop t (encode_map T), pool := s # pool T\<rparr>"
    have step: "freeLoop T (s # symbols) = freeLoop ?X symbols"
      using d e one by simp
    have bX: "bimap ?X"
      using Cons.prems(1) d by (rule bimap_erase)
    have "s \<notin> set symbols"
    proof
      assume "s \<in> set symbols"
      from fromSymbols_member [OF f this] d notin show False
        by auto
    qed
    with f have fX: "fromSymbols ?X symbols = Inr ts'"
      by (rule fromSymbols_drop) simp
    have hX: "\<forall>u \<in> set ts'. \<exists>sh. fmlookup (encode_map ?X) u = Some sh
        \<and> unat (ref_count sh) = count_list ts' u"
    proof
      fix u
      assume u: "u \<in> set ts'"
      with notin have ne: "t \<noteq> u"
        by auto
      from Cons.prems(3) u tk obtain sh where
        "fmlookup (encode_map T) u = Some sh" and "unat (ref_count sh) = count_list tokens u"
        by auto
      with ne tk show "\<exists>sh. fmlookup (encode_map ?X) u = Some sh
        \<and> unat (ref_count sh) = count_list ts' u"
        by simp
    qed
    from Cons.IH [OF bX fX hX] obtain T2 where
      r: "freeLoop ?X symbols = Inr T2"
      and m: "\<And>u. fmlookup (encode_map T2) u
              = (if u \<in> set ts' then None else fmlookup (encode_map ?X) u)"
      by blast
    have "fmlookup (encode_map T2) u
              = (if u \<in> set tokens then None else fmlookup (encode_map T) u)" for u
      unfolding m tk by auto
    with r step show ?thesis
      by simp
  next
    case False
    then have isin: "t \<in> set ts'"
      by (simp add: count_list_0_iff)
    from rc have nz: "ref_count shared \<noteq> 0"
      by (auto simp: unat_eq_0)
    then have dec: "unat (ref_count shared - 1) = count_list ts' t"
      using rc by (simp add: unat_minus_one)
    with False have nz': "ref_count shared - 1 \<noteq> 0"
      by (auto simp: unat_eq_0)
    let ?X = "T\<lparr>encode_map :=
                 fmupd t (shared\<lparr>ref_count := ref_count shared - 1\<rparr>) (encode_map T)\<rparr>"
    have step: "freeLoop T (s # symbols) = freeLoop ?X symbols"
      using d e nz' by simp
    have bX: "bimap ?X"
      using Cons.prems(1) e by (rule bimap_ref_count)
    have fX: "fromSymbols ?X symbols = Inr ts'"
      using f fromSymbols_cong [of ?X T symbols] by simp
    have hX: "\<forall>u \<in> set ts'. \<exists>sh. fmlookup (encode_map ?X) u = Some sh
        \<and> unat (ref_count sh) = count_list ts' u"
    proof
      fix u
      assume u: "u \<in> set ts'"
      show "\<exists>sh. fmlookup (encode_map ?X) u = Some sh \<and> unat (ref_count sh) = count_list ts' u"
      proof (cases "t = u")
        case True
        with dec show ?thesis
          by simp
      next
        case ne: False
        from Cons.prems(3) u tk obtain sh where
          "fmlookup (encode_map T) u = Some sh" and "unat (ref_count sh) = count_list tokens u"
          by auto
        with ne tk show ?thesis
          by simp
      qed
    qed
    from Cons.IH [OF bX fX hX] obtain T2 where
      r: "freeLoop ?X symbols = Inr T2"
      and m: "\<And>u. fmlookup (encode_map T2) u
              = (if u \<in> set ts' then None else fmlookup (encode_map ?X) u)"
      by blast
    have "fmlookup (encode_map T2) u
              = (if u \<in> set tokens then None else fmlookup (encode_map T) u)" for u
      unfolding m tk using isin by auto
    with r step show ?thesis
      by simp
  qed
qed

lemma bimap_decode_determined:
  assumes "bimap A" and "bimap B" and "encode_map A = encode_map B"
  shows "decode_map A = decode_map B"
proof (rule fmap_ext)
  fix i
  have one: "fmlookup (decode_map Q) i = Some x"
    if "bimap P" and "bimap Q" and "encode_map P = encode_map Q"
      and "fmlookup (decode_map P) i = Some x" for P Q x
  proof -
    from bimapD2 [OF that(1,4)] obtain sh where
      "fmlookup (encode_map P) x = Some sh" and "symbol sh = i"
      by blast
    with that(3) bimapD1 [OF that(2), of x sh] show ?thesis
      by simp
  qed
  show "fmlookup (decode_map A) i = fmlookup (decode_map B) i"
  proof (cases "fmlookup (decode_map A) i")
    case None
    show ?thesis
    proof (cases "fmlookup (decode_map B) i")
      case None
      with \<open>fmlookup (decode_map A) i = None\<close> show ?thesis by simp
    next
      case (Some x)
      from one [OF assms(2,1) assms(3) [symmetric] Some] None show ?thesis
        by simp
    qed
  next
    case (Some x)
    from one [OF assms Some] Some show ?thesis
      by simp
  qed
qed

lemma numSymbols_cong:
  "encode_map A = encode_map B \<Longrightarrow> decode_map A = decode_map B \<Longrightarrow> numSymbols A = numSymbols B"
  by (simp add: numSymbols_def)

lemma free_storage:
  assumes "moveToStorage (addSymbols symbols []) = Inr stat_name"
  shows "free T stat_name = freeLoop T symbols"
  using dataSize_moveToStorage [OF assms] by (simp add: free_def decodeSymbols_addSymbols)

text \<open>
  Claim C8.  Let \<open>T\<close> be a reachable table state and \<open>name\<close> a string none of whose
  tokens is in the encode map of \<open>T\<close>.  When the name is encoded and stored as a packed
  name, \<open>free\<close> of that packed name returns, and afterwards both maps are what they were
  in \<open>T\<close>, and so is \<open>numSymbols\<close>.
\<close>

theorem encode_free_restores:
  assumes "run_ops SymbolTable_init ops = Inr T"
    and "\<forall>t \<in> set (name_tokens name). fmlookup (encode_map T) t = None"
    and "StatNameStorage name T = Inr (T1, stat_name)"
  shows "\<exists>T2. free T1 stat_name = Inr T2
           \<and> encode_map T2 = encode_map T
           \<and> decode_map T2 = decode_map T
           \<and> numSymbols T2 = numSymbols T"
proof -
  from reachable_inv [OF assms(1)] have inv: "table_inv T" .
  from assms(3) obtain encoding where e: "encode T name = Inr (T1, encoding)"
    and m: "moveToStorage encoding = Inr stat_name"
    by (rule StatNameStorage_cases)
  from encode_symbols [OF e] obtain symbols where
    ts: "toSymbols T (name_tokens name) = Inr (T1, symbols)"
    and enc: "encoding = addSymbols symbols []"
    by blast
  from encode_inv [OF inv e] have inv1: "table_inv T1" .
  then have b1: "bimap T1"
    by (simp add: table_inv_def)
  from toSymbols_fromSymbols [OF inv ts] have f1: "fromSymbols T1 symbols = Inr (name_tokens name)" .
  from moveToStorage_Inr [OF m] have "length encoding < 65536"
    by simp
  with length_addSymbols [of symbols] enc have "length symbols < 65536"
    by simp
  with fromSymbols_length [OF f1] have len: "length (name_tokens name) < 65536"
    by simp
  have h1: "\<forall>t \<in> set (name_tokens name). \<exists>shared. fmlookup (encode_map T1) t = Some shared
        \<and> unat (ref_count shared) = count_list (name_tokens name) t"
  proof
    fix t
    assume t: "t \<in> set (name_tokens name)"
    from toSymbols_ref_count [OF ts, of t] t obtain shared where
      s: "fmlookup (encode_map T1) t = Some shared"
      and r: "ref_count_of T1 t = ref_count_of T t + word_of_nat (count_list (name_tokens name) t)"
      by auto
    from assms(2) t have "ref_count_of T t = 0"
      by (simp add: ref_count_of_def)
    with r s have "ref_count shared = word_of_nat (count_list (name_tokens name) t)"
      by (simp add: ref_count_of_def)
    moreover have "count_list (name_tokens name) t < 2 ^ 32"
      using count_le_length [of "name_tokens name" t] len by simp
    ultimately have "unat (ref_count shared) = count_list (name_tokens name) t"
      by (simp add: unat_of_nat)
    with s show "\<exists>shared. fmlookup (encode_map T1) t = Some shared
        \<and> unat (ref_count shared) = count_list (name_tokens name) t"
      by blast
  qed
  from freeLoop_erases [OF b1 f1 h1] obtain T2 where
    r: "freeLoop T1 symbols = Inr T2"
    and em: "\<And>u. fmlookup (encode_map T2) u
              = (if u \<in> set (name_tokens name) then None else fmlookup (encode_map T1) u)"
    by blast
  have fr: "free T1 stat_name = Inr T2"
    using free_storage [of symbols stat_name T1] m enc r by simp
  have "fmlookup (encode_map T2) u = fmlookup (encode_map T) u" for u
    unfolding em using assms(2) toSymbols_ref_count [OF ts, of u] by auto
  then have e2: "encode_map T2 = encode_map T"
    by (rule fmap_ext)
  from freeLoop_inv [OF inv1 r] have "bimap T2"
    by (simp add: table_inv_def)
  moreover from inv have "bimap T"
    by (simp add: table_inv_def)
  ultimately have d2: "decode_map T2 = decode_map T"
    using e2 by (rule bimap_decode_determined)
  from fr e2 d2 numSymbols_cong [OF e2 d2] show ?thesis
    by blast
qed

theorem encode_free_restores_witness:
  "run_ops SymbolTable_init [Encode ''a.b''] =
     Inr \<lparr>next_symbol = 2, monotonic_counter = 2,
          encode_map = fmupd ''b'' \<lparr>symbol = 1, ref_count = 1\<rparr>
                         (fmupd ''a'' \<lparr>symbol = 0, ref_count = 1\<rparr> fmempty),
          decode_map = fmupd 1 ''b'' (fmupd 0 ''a'' fmempty), pool = []\<rparr>
   \<and> StatNameStorage ''c.c'' \<lparr>next_symbol = 2, monotonic_counter = 2,
          encode_map = fmupd ''b'' \<lparr>symbol = 1, ref_count = 1\<rparr>
                         (fmupd ''a'' \<lparr>symbol = 0, ref_count = 1\<rparr> fmempty),
          decode_map = fmupd 1 ''b'' (fmupd 0 ''a'' fmempty), pool = []\<rparr> =
     Inr (\<lparr>next_symbol = 3, monotonic_counter = 3,
          encode_map = fmupd ''c'' \<lparr>symbol = 2, ref_count = 2\<rparr>
                         (fmupd ''b'' \<lparr>symbol = 1, ref_count = 1\<rparr>
                           (fmupd ''a'' \<lparr>symbol = 0, ref_count = 1\<rparr> fmempty)),
          decode_map = fmupd 2 ''c'' (fmupd 1 ''b'' (fmupd 0 ''a'' fmempty)), pool = []\<rparr>,
          [2, 0, 2, 2])
   \<and> free \<lparr>next_symbol = 3, monotonic_counter = 3,
          encode_map = fmupd ''c'' \<lparr>symbol = 2, ref_count = 2\<rparr>
                         (fmupd ''b'' \<lparr>symbol = 1, ref_count = 1\<rparr>
                           (fmupd ''a'' \<lparr>symbol = 0, ref_count = 1\<rparr> fmempty)),
          decode_map = fmupd 2 ''c'' (fmupd 1 ''b'' (fmupd 0 ''a'' fmempty)), pool = []\<rparr>
          [2, 0, 2, 2] =
     Inr \<lparr>next_symbol = 3, monotonic_counter = 3,
          encode_map = fmupd ''b'' \<lparr>symbol = 1, ref_count = 1\<rparr>
                         (fmupd ''a'' \<lparr>symbol = 0, ref_count = 1\<rparr> fmempty),
          decode_map = fmupd 1 ''b'' (fmupd 0 ''a'' fmempty), pool = [2]\<rparr>
   \<and> (\<exists>T2. free \<lparr>next_symbol = 3, monotonic_counter = 3,
          encode_map = fmupd ''c'' \<lparr>symbol = 2, ref_count = 2\<rparr>
                         (fmupd ''b'' \<lparr>symbol = 1, ref_count = 1\<rparr>
                           (fmupd ''a'' \<lparr>symbol = 0, ref_count = 1\<rparr> fmempty)),
          decode_map = fmupd 2 ''c'' (fmupd 1 ''b'' (fmupd 0 ''a'' fmempty)), pool = []\<rparr>
          [2, 0, 2, 2] = Inr T2
        \<and> encode_map T2 = encode_map \<lparr>next_symbol = 2, monotonic_counter = 2,
          encode_map = fmupd ''b'' \<lparr>symbol = 1, ref_count = 1\<rparr>
                         (fmupd ''a'' \<lparr>symbol = 0, ref_count = 1\<rparr> fmempty),
          decode_map = fmupd 1 ''b'' (fmupd 0 ''a'' fmempty), pool = []\<rparr>
        \<and> decode_map T2 = decode_map \<lparr>next_symbol = 2, monotonic_counter = 2,
          encode_map = fmupd ''b'' \<lparr>symbol = 1, ref_count = 1\<rparr>
                         (fmupd ''a'' \<lparr>symbol = 0, ref_count = 1\<rparr> fmempty),
          decode_map = fmupd 1 ''b'' (fmupd 0 ''a'' fmempty), pool = []\<rparr>
        \<and> numSymbols T2 = numSymbols \<lparr>next_symbol = 2, monotonic_counter = 2,
          encode_map = fmupd ''b'' \<lparr>symbol = 1, ref_count = 1\<rparr>
                         (fmupd ''a'' \<lparr>symbol = 0, ref_count = 1\<rparr> fmempty),
          decode_map = fmupd 1 ''b'' (fmupd 0 ''a'' fmempty), pool = []\<rparr>)"
  (is "?A \<and> ?C \<and> ?D \<and> ?E")
proof -
  have a: ?A
    by (simp add: model_defs)
  have b: "\<forall>t \<in> set (name_tokens ''c.c''). fmlookup (encode_map \<lparr>next_symbol = 2, monotonic_counter = 2,
          encode_map = fmupd ''b'' \<lparr>symbol = 1, ref_count = 1\<rparr>
                         (fmupd ''a'' \<lparr>symbol = 0, ref_count = 1\<rparr> fmempty),
          decode_map = fmupd 1 ''b'' (fmupd 0 ''a'' fmempty), pool = []\<rparr>) t = None"
    by (simp add: name_tokens_def StrSplit_def)
  have c: ?C
    by (simp add: model_defs)
  have d: ?D
    by (simp add: model_defs)
  from encode_free_restores [OF a b c] have ?E .
  with a c d show ?thesis
    by blast
qed

end
